theory Spec2Isabelle
  imports Main "HOL-Library.Word"
begin

unbundle bit_operations_syntax

section \<open>The serial framing protocol of the firmware (comms/serial\_comms.cpp)\<close>

text \<open>
  The development embeds \<^verbatim>\<open>SerialComms\<close> of \<^verbatim>\<open>src/firmware/src/comms/serial_comms.{h,cpp}\<close>
  together with the protocol constants of \<^verbatim>\<open>src/firmware/src/config.h\<close>.
  Machine integers keep their width: \<^verbatim>\<open>uint8_t\<close> is \<open>8 word\<close>, \<^verbatim>\<open>uint16_t\<close> is
  \<open>16 word\<close> and \<^verbatim>\<open>unsigned long\<close> (32 bits on the ESP32 target) is \<open>32 word\<close>.
\<close>

type_synonym u8 = "8 word"
type_synonym u16 = "16 word"
type_synonym u32 = "32 word"

subsection \<open>Constants of config.h and serial\_comms.h\<close>

definition MSG_DISPLAY_TEXT :: u8 where "MSG_DISPLAY_TEXT = 0x01"
definition MSG_BUTTON :: u8 where "MSG_BUTTON = 0x02"
definition MSG_SET_LEDS :: u8 where "MSG_SET_LEDS = 0x03"
definition MSG_STATUS :: u8 where "MSG_STATUS = 0x04"
definition MSG_CLEAR :: u8 where "MSG_CLEAR = 0x05"
definition MSG_SET_LABELS :: u8 where "MSG_SET_LABELS = 0x06"
definition MSG_HEARTBEAT :: u8 where "MSG_HEARTBEAT = 0x07"

definition FRAME_START_BYTE :: u8 where "FRAME_START_BYTE = 0xAA"
definition MAX_MSG_LEN :: nat where "MAX_MSG_LEN = 512"
definition FRAME_TIMEOUT_MS :: u32 where "FRAME_TIMEOUT_MS = 500"

subsection \<open>The decoder object\<close>

datatype ParseState = WAIT_START | READ_LEN_HI | READ_LEN_LO | READ_BODY | READ_CHECKSUM

text \<open>
  The callbacks are code of the surrounding application. What the protocol layer does with
  them is to call them, so a call is recorded as a value: the arguments the callback can read.
  A text or LED callback receives a pointer and a length, that is the bytes
  \<^verbatim>\<open>payload[0 .. len)\<close>; the labels callback receives four C strings.
\<close>

datatype handler_call =
    DisplayTextCall "u8 list"
  | StatusTextCall "u8 list"
  | SetLedsCall "u8 list"
  | ClearDisplayCall
  | SetLabelsCall "u8 list list"

text \<open>
  The fields of the class, without the leading underscore. A callback slot is modelled by
  whether it holds a non-null pointer. \<open>labelBufs\<close> is the function-local
  \<^verbatim>\<open>static char labelBufs[4][32]\<close> of \<^verbatim>\<open>processMessage\<close>, which outlives the call.
  Two fields observe the object from outside and are never read by the code:
  \<open>dispatched\<close> lists the invocations of \<^verbatim>\<open>processMessage\<close> (type byte and
  \<^verbatim>\<open>payload[0 .. len)\<close>), \<open>calls\<close> lists the callback invocations, both oldest first.
\<close>

record SerialComms =
  state :: ParseState
  buffer :: "u8 list"
  bodyLen :: u16
  bodyIdx :: u16
  lastByteTime :: u32
  bridgeConnected :: bool
  onDisplayText :: bool
  onStatusText :: bool
  onSetLeds :: bool
  onClearDisplay :: bool
  onSetLabels :: bool
  labelBufs :: "u8 list list"
  dispatched :: "(u8 \<times> u8 list) list"
  calls :: "handler_call list"

text \<open>
  The object as the in-class initialisers leave it. \<^verbatim>\<open>static SerialComms comms\<close> of
  main.cpp has static storage, so the arrays without an initialiser start zeroed.
\<close>

definition SerialComms_init :: SerialComms where
  "SerialComms_init =
     \<lparr> state = WAIT_START,
       buffer = replicate MAX_MSG_LEN 0,
       bodyLen = 0,
       bodyIdx = 0,
       lastByteTime = 0,
       bridgeConnected = False,
       onDisplayText = False,
       onStatusText = False,
       onSetLeds = False,
       onClearDisplay = False,
       onSetLabels = False,
       labelBufs = replicate 4 (replicate 32 0),
       dispatched = [],
       calls = [] \<rparr>"

text \<open>
  Accesses outside an array are undefined behaviour in C++; the model makes them a value.
\<close>

datatype fault = OutOfBounds

subsection \<open>processMessage\<close>

text \<open>
  A label slot \<^verbatim>\<open>labels[i]\<close> points either at the string literal \<^verbatim>\<open>""\<close> or at
  \<^verbatim>\<open>labelBufs[j]\<close>.
\<close>

datatype label_ref = EmptyLit | LabelBuf nat

text \<open>A C string: the bytes before the first NUL.\<close>

definition cstr :: "u8 list \<Rightarrow> u8 list" where
  "cstr buf = takeWhile (\<lambda>c. c \<noteq> 0) buf"

text \<open>\<^verbatim>\<open>memcpy(dst, src, n)\<close> on arrays that hold at least \<open>n\<close> bytes.\<close>

definition memcpy :: "u8 list \<Rightarrow> u8 list \<Rightarrow> nat \<Rightarrow> u8 list" where
  "memcpy dst src n = take n src @ drop n dst"

definition label_str :: "u8 list list \<Rightarrow> label_ref \<Rightarrow> u8 list" where
  "label_str bufs r = (case r of EmptyLit \<Rightarrow> [] | LabelBuf j \<Rightarrow> cstr (bufs ! j))"

text \<open>
  The \<^verbatim>\<open>while (pos < len && labelIdx < 4)\<close> loop of the \<^verbatim>\<open>MSG_SET_LABELS\<close> case. The
  loop state is \<^verbatim>\<open>labels\<close>, \<^verbatim>\<open>labelBufs\<close>, \<^verbatim>\<open>labelIdx\<close> (an \<^verbatim>\<open>int\<close> that only takes
  the values 0 to 4, a \<open>nat\<close> here) and \<^verbatim>\<open>pos\<close>. The comparison
  \<^verbatim>\<open>pos + labelLen > len\<close> is made after integer promotion, hence on \<open>nat\<close>;
  \<^verbatim>\<open>pos++\<close> and \<^verbatim>\<open>pos += labelLen\<close> are 16-bit. \<open>payload\<close> is the memory from the
  pointer \<^verbatim>\<open>payload\<close> onwards.
\<close>

function set_labels_loop ::
  "u8 list \<Rightarrow> u16 \<Rightarrow> label_ref list \<times> u8 list list \<times> nat \<times> u16 \<Rightarrow> label_ref list \<times> u8 list list"
where
  "set_labels_loop payload len (labels, bufs, labelIdx, pos) =
     (if pos < len \<and> labelIdx < 4 then
        (let labelLen = payload ! unat pos;
             pos1 = pos + 1
         in if unat pos1 + unat labelLen > unat len then (labels, bufs)
            else
              (let copyLen = (if labelLen < 31 then labelLen else 31);
                   buf = (memcpy (bufs ! labelIdx) (drop (unat pos1) payload) (unat copyLen))
                           [unat copyLen := 0]
               in set_labels_loop payload len
                    (labels[labelIdx := LabelBuf labelIdx], bufs[labelIdx := buf],
                     labelIdx + 1, pos1 + ucast labelLen)))
      else (labels, bufs))"
  by pat_completeness auto
termination
  by (relation "measure (\<lambda>(payload, len, labels, bufs, labelIdx, pos). 4 - labelIdx)") auto

declare set_labels_loop.simps [simp del]

definition processMessage :: "SerialComms \<Rightarrow> u8 \<Rightarrow> u8 list \<Rightarrow> u16 \<Rightarrow> SerialComms" where
  "processMessage s0 msgType payload len =
     (let s = s0\<lparr>bridgeConnected := True,
                 dispatched := dispatched s0 @ [(msgType, take (unat len) payload)]\<rparr>
      in if msgType = MSG_DISPLAY_TEXT then
           (if onDisplayText s \<and> len > 0
            then s\<lparr>calls := calls s @ [DisplayTextCall (take (unat len) payload)]\<rparr> else s)
         else if msgType = MSG_STATUS then
           (if onStatusText s \<and> len > 0
            then s\<lparr>calls := calls s @ [StatusTextCall (take (unat len) payload)]\<rparr> else s)
         else if msgType = MSG_SET_LEDS then
           (if onSetLeds s \<and> len > 0
            then s\<lparr>calls := calls s @ [SetLedsCall (take (unat len) payload)]\<rparr> else s)
         else if msgType = MSG_CLEAR then
           (if onClearDisplay s
            then s\<lparr>calls := calls s @ [ClearDisplayCall]\<rparr> else s)
         else if msgType = MSG_SET_LABELS then
           (if onSetLabels s \<and> len > 0
            then (case set_labels_loop payload len (replicate 4 EmptyLit, labelBufs s, 0, 0) of
                    (labels, bufs) \<Rightarrow>
                      s\<lparr>labelBufs := bufs,
                        calls := calls s @ [SetLabelsCall (map (label_str bufs) labels)]\<rparr>)
            else s)
         else s)"

subsection \<open>poll\<close>

text \<open>
  One iteration of \<^verbatim>\<open>while (Serial.available())\<close>: \<open>byte\<close> is the value of
  \<^verbatim>\<open>Serial.read()\<close> and \<open>now\<close> the value of \<^verbatim>\<open>millis()\<close> on line 18. The checksum
  \<^verbatim>\<open>protocol::checksum\<close> is declared in protocol.h, which is not among the sources, so it
  is the parameter \<open>checksum\<close>, applied to the bytes \<^verbatim>\<open>_buffer[0 .. _bodyLen)\<close>.
  The store \<^verbatim>\<open>_buffer[_bodyIdx++] = byte\<close> is a fault when the index is outside the array.
  \<^verbatim>\<open>READ_CHECKSUM\<close> reads \<^verbatim>\<open>_buffer[0 .. _bodyLen)\<close> and hands out
  \<^verbatim>\<open>_buffer + 1\<close> with the length \<^verbatim>\<open>_bodyLen - 1\<close>; both stay inside the array exactly
  when \<open>1 \<le> _bodyLen \<le> MAX_MSG_LEN\<close>, and the model reports a fault otherwise.
\<close>

definition poll_byte :: "(u8 list \<Rightarrow> u8) \<Rightarrow> SerialComms \<Rightarrow> u32 \<times> u8 \<Rightarrow> fault + SerialComms" where
  "poll_byte checksum s0 inp =
     (let now = fst inp; byte = snd inp;
          s = s0\<lparr>lastByteTime := now\<rparr>
      in case state s of
           WAIT_START \<Rightarrow>
             Inr (if byte = FRAME_START_BYTE then s\<lparr>state := READ_LEN_HI\<rparr> else s)
         | READ_LEN_HI \<Rightarrow>
             Inr (s\<lparr>bodyLen := push_bit 8 (ucast byte), state := READ_LEN_LO\<rparr>)
         | READ_LEN_LO \<Rightarrow>
             (let n = bodyLen s OR ucast byte
              in Inr (if n = 0 \<or> unat n > MAX_MSG_LEN
                      then s\<lparr>bodyLen := n, state := WAIT_START\<rparr>
                      else s\<lparr>bodyLen := n, bodyIdx := 0, state := READ_BODY\<rparr>))
         | READ_BODY \<Rightarrow>
             (if unat (bodyIdx s) < length (buffer s) then
                (let i = bodyIdx s + 1
                 in Inr (s\<lparr>buffer := (buffer s)[unat (bodyIdx s) := byte],
                           bodyIdx := i,
                           state := (if i \<ge> bodyLen s then READ_CHECKSUM else READ_BODY)\<rparr>))
              else Inl OutOfBounds)
         | READ_CHECKSUM \<Rightarrow>
             (if 1 \<le> unat (bodyLen s) \<and> unat (bodyLen s) \<le> length (buffer s) then
                (let expected = checksum (take (unat (bodyLen s)) (buffer s))
                 in Inr ((if byte = expected
                          then processMessage s (buffer s ! 0) (drop 1 (buffer s)) (bodyLen s - 1)
                          else s)\<lparr>state := WAIT_START\<rparr>))
              else Inl OutOfBounds))"

text \<open>
  The \<^verbatim>\<open>while\<close> loop over the bytes that \<^verbatim>\<open>Serial\<close> delivers during one call, each with
  the clock value read for it.
\<close>

fun poll_loop :: "(u8 list \<Rightarrow> u8) \<Rightarrow> SerialComms \<Rightarrow> (u32 \<times> u8) list \<Rightarrow> fault + SerialComms" where
  "poll_loop checksum s [] = Inr s"
| "poll_loop checksum s (x # xs) =
     (case poll_byte checksum s x of
        Inl e \<Rightarrow> Inl e
      | Inr s' \<Rightarrow> poll_loop checksum s' xs)"

text \<open>
  \<^verbatim>\<open>poll()\<close>: \<open>now\<close> is the value of \<^verbatim>\<open>millis()\<close> on line 12; the subtraction is
  unsigned 32-bit subtraction and wraps.
\<close>

definition poll :: "(u8 list \<Rightarrow> u8) \<Rightarrow> SerialComms \<Rightarrow> u32 \<Rightarrow> (u32 \<times> u8) list \<Rightarrow> fault + SerialComms" where
  "poll checksum s now inp =
     poll_loop checksum
       (if state s \<noteq> WAIT_START \<and> now - lastByteTime s > FRAME_TIMEOUT_MS
        then s\<lparr>state := WAIT_START\<rparr> else s)
       inp"

text \<open>\<^verbatim>\<open>begin()\<close>; the name is primed because \<open>begin\<close> is a keyword.\<close>

definition begin' :: "SerialComms \<Rightarrow> SerialComms" where
  "begin' s = s\<lparr>state := WAIT_START\<rparr>"

text \<open>
  The public operations on the object. The setters store a callback pointer (\<open>True\<close>: not
  null). \<^verbatim>\<open>sendButtonEvent\<close> and \<^verbatim>\<open>sendHeartbeat\<close> write to \<^verbatim>\<open>Serial\<close> and touch no
  field; what they write is \<open>sendFrame\<close> below.
\<close>

datatype operation =
    Begin
  | Poll u32 "(u32 \<times> u8) list"
  | OnDisplayText bool
  | OnStatusText bool
  | OnSetLeds bool
  | OnClearDisplay bool
  | OnSetButtonLabels bool
  | SendButtonEvent u8 bool
  | SendHeartbeat u8

fun exec :: "(u8 list \<Rightarrow> u8) \<Rightarrow> SerialComms \<Rightarrow> operation \<Rightarrow> fault + SerialComms" where
  "exec checksum s Begin = Inr (begin' s)"
| "exec checksum s (Poll now inp) = poll checksum s now inp"
| "exec checksum s (OnDisplayText cb) = Inr (s\<lparr>onDisplayText := cb\<rparr>)"
| "exec checksum s (OnStatusText cb) = Inr (s\<lparr>onStatusText := cb\<rparr>)"
| "exec checksum s (OnSetLeds cb) = Inr (s\<lparr>onSetLeds := cb\<rparr>)"
| "exec checksum s (OnClearDisplay cb) = Inr (s\<lparr>onClearDisplay := cb\<rparr>)"
| "exec checksum s (OnSetButtonLabels cb) = Inr (s\<lparr>onSetLabels := cb\<rparr>)"
| "exec checksum s (SendButtonEvent buttonId pressed) = Inr s"
| "exec checksum s (SendHeartbeat status) = Inr s"

fun run :: "(u8 list \<Rightarrow> u8) \<Rightarrow> SerialComms \<Rightarrow> operation list \<Rightarrow> fault + SerialComms" where
  "run checksum s [] = Inr s"
| "run checksum s (x # xs) =
     (case exec checksum s x of
        Inl e \<Rightarrow> Inl e
      | Inr s' \<Rightarrow> run checksum s' xs)"

subsection \<open>Array shapes and the decoder invariant\<close>

text \<open>The arrays have the sizes of their declarations.\<close>

definition shape_ok :: "SerialComms \<Rightarrow> bool" where
  "shape_ok s \<longleftrightarrow>
     length (buffer s) = MAX_MSG_LEN \<and>
     length (labelBufs s) = 4 \<and>
     list_all (\<lambda>b. length b = 32) (labelBufs s)"

definition decoder_inv :: "SerialComms \<Rightarrow> bool" where
  "decoder_inv s \<longleftrightarrow>
     shape_ok s \<and>
     (state s = READ_BODY \<longrightarrow>
        1 \<le> unat (bodyLen s) \<and> unat (bodyLen s) \<le> MAX_MSG_LEN \<and>
        unat (bodyIdx s) < unat (bodyLen s)) \<and>
     (state s = READ_CHECKSUM \<longrightarrow>
        1 \<le> unat (bodyLen s) \<and> unat (bodyLen s) \<le> MAX_MSG_LEN)"

subsection \<open>The encoder\<close>

text \<open>
  Modelled from the spec: \<^verbatim>\<open>protocol::buildFrame\<close> is declared in protocol.h, which is
  not among the sources. Section 4.2 of the specification: given a message type and a payload
  of length L, the frame is the start marker, BODY\_LEN = L+1 as big-endian 16-bit, the body
  (type byte followed by the payload bytes), then the checksum of the body. The result is the
  bytes \<^verbatim>\<open>frame[0 .. frameLen)\<close>.
\<close>

definition buildFrame :: "(u8 list \<Rightarrow> u8) \<Rightarrow> u8 \<Rightarrow> u8 list \<Rightarrow> u16 \<Rightarrow> u8 list" where
  "buildFrame checksum msgType payload len =
     (let body = msgType # take (unat len) payload;
          n = len + 1
      in [FRAME_START_BYTE, ucast (drop_bit 8 n), ucast n] @ body @ [checksum body])"

text \<open>\<^verbatim>\<open>sendFrame\<close>: the bytes passed to \<^verbatim>\<open>Serial.write\<close>.\<close>

definition sendFrame :: "(u8 list \<Rightarrow> u8) \<Rightarrow> u8 \<Rightarrow> u8 list \<Rightarrow> u16 \<Rightarrow> u8 list" where
  "sendFrame checksum msgType payload len = buildFrame checksum msgType payload len"

definition sendButtonEvent :: "(u8 list \<Rightarrow> u8) \<Rightarrow> u8 \<Rightarrow> bool \<Rightarrow> u8 list" where
  "sendButtonEvent checksum buttonId pressed =
     sendFrame checksum MSG_BUTTON [buttonId, (if pressed then 1 else 0)] 2"

definition sendHeartbeat :: "(u8 list \<Rightarrow> u8) \<Rightarrow> u8 \<Rightarrow> u8 list" where
  "sendHeartbeat checksum status = sendFrame checksum MSG_HEARTBEAT [status] 1"

text \<open>
  Modelled from the spec: \<^verbatim>\<open>protocol::checksum\<close> is declared in protocol.h, which is not
  among the sources. Section 4.3 of the specification leaves the algorithm open and names the
  additive sum truncated to 8 bits as one that satisfies the protocol. The theorems below
  hold for every checksum function; \<open>sum8\<close> only instantiates them at concrete inputs.
\<close>

definition sum8 :: "u8 list \<Rightarrow> u8" where
  "sum8 xs = foldr (+) xs 0"

subsection \<open>The labels sub-structure as the specification words it\<close>

text \<open>
  Sections 3 and 4.4 of the specification: up to 4 records, each LEN(1) | TEXT(LEN bytes),
  consumed left to right; each string is truncated to 31 characters; the scan stops when a
  record's declared length would read past the payload end or 4 records have been produced;
  records not produced stay empty. \<open>label_records k\<close> produces at most \<open>k\<close> records.
\<close>

fun label_records :: "nat \<Rightarrow> u8 list \<Rightarrow> u8 list list" where
  "label_records 0 payload = []"
| "label_records (Suc k) [] = []"
| "label_records (Suc k) (l # rest) =
     (if unat l > length rest then []
      else take 31 (take (unat l) rest) # label_records k (drop (unat l) rest))"

definition labels_spec :: "u8 list \<Rightarrow> u8 list list" where
  "labels_spec payload =
     (let rs = label_records 4 payload in rs @ replicate (4 - length rs) [])"

subsection \<open>The decoder after the last body byte\<close>

text \<open>
  The object once the bytes \<open>body\<close> of a frame have been stored, the last of them read at
  clock value \<open>t\<close>: \<^verbatim>\<open>READ_CHECKSUM\<close> is next.
\<close>

definition after_body :: "SerialComms \<Rightarrow> u32 \<Rightarrow> u8 list \<Rightarrow> SerialComms" where
  "after_body s t body =
     s\<lparr>lastByteTime := t,
       buffer := body @ drop (length body) (buffer s),
       bodyLen := of_nat (length body),
       bodyIdx := of_nat (length body),
       state := READ_CHECKSUM\<rparr>"

subsection \<open>What the labels callback reads\<close>

text \<open>
  The four C strings behind \<^verbatim>\<open>labels[0 .. 4)\<close> once the loop has ended, and the strings
  of a list of records followed by empty strings up to \<open>m\<close> entries.
\<close>

definition labels_out :: "label_ref list \<times> u8 list list \<Rightarrow> u8 list list" where
  "labels_out r = map (label_str (snd r)) (fst r)"

definition pad_labels :: "nat \<Rightarrow> u8 list list \<Rightarrow> u8 list list" where
  "pad_labels m rs = map cstr rs @ replicate (m - length rs) []"

section \<open>Lemmas on the decoder\<close>

lemmas msg_defs =
  MSG_DISPLAY_TEXT_def MSG_BUTTON_def MSG_SET_LEDS_def MSG_STATUS_def
  MSG_CLEAR_def MSG_SET_LABELS_def MSG_HEARTBEAT_def

lemma poll_loop_append:
  "poll_loop cs s (xs @ ys) =
     (case poll_loop cs s xs of Inl e \<Rightarrow> Inl e | Inr s' \<Rightarrow> poll_loop cs s' ys)"
  by (induction xs arbitrary: s) (auto split: sum.splits)

lemma len_bytes_combine:
  "push_bit 8 (ucast (ucast (drop_bit 8 n) :: u8) :: u16) OR ucast (ucast n :: u8) = (n :: u16)"
  by (rule bit_word_eqI) (auto simp: bit_simps)

lemma unat_succ_lt:
  fixes i n :: u16
  assumes "unat i < unat n"
  shows "unat (i + 1) = Suc (unat i)"
proof -
  have "unat n < 2 ^ 16" using unsigned_less[of n] by simp
  then have "unat i + 1 < 2 ^ 16" using assms by simp
  then show ?thesis by (simp add: unat_word_ariths)
qed

lemma poll_body:
  assumes "state s = READ_BODY"
    and "unat (bodyLen s) \<le> length (buffer s)"
    and "unat (bodyIdx s) + length inp = unat (bodyLen s)"
    and "inp \<noteq> []"
  shows "poll_loop cs s inp =
     Inr (s\<lparr>lastByteTime := fst (last inp),
            buffer := take (unat (bodyIdx s)) (buffer s) @ map snd inp @ drop (unat (bodyLen s)) (buffer s),
            bodyIdx := bodyLen s,
            state := READ_CHECKSUM\<rparr>)"
  using assms
proof (induction inp arbitrary: s)
  case Nil
  then show ?case by simp
next
  case (Cons x xs)
  have lt: "unat (bodyIdx s) < unat (bodyLen s)" using Cons.prems by simp
  have suc: "unat (bodyIdx s + 1) = Suc (unat (bodyIdx s))" by (rule unat_succ_lt[OF lt])
  have upd: "(buffer s)[unat (bodyIdx s) := snd x] =
       take (unat (bodyIdx s)) (buffer s) @ snd x # drop (Suc (unat (bodyIdx s))) (buffer s)"
    using lt Cons.prems(2) by (simp add: upd_conv_take_nth_drop)
  show ?case
  proof (cases "xs = []")
    case True
    have "unat (bodyIdx s + 1) = unat (bodyLen s)" using Cons.prems True suc by simp
    then have eq: "bodyIdx s + 1 = bodyLen s" by (simp add: word_unat_eq_iff)
    have eq': "Suc (unat (bodyIdx s)) = unat (bodyLen s)" using Cons.prems True by simp
    show ?thesis using Cons.prems True eq lt upd eq'
      by (simp add: poll_byte_def Let_def)
  next
    case False
    have nge: "\<not> bodyLen s \<le> bodyIdx s + 1" using Cons.prems False suc
      by (cases xs) (simp_all add: word_le_nat_alt)
    define s1 where "s1 = s\<lparr>lastByteTime := fst x, buffer := (buffer s)[unat (bodyIdx s) := snd x],
                           bodyIdx := bodyIdx s + 1, state := READ_BODY\<rparr>"
    have step: "poll_byte cs s x = Inr s1"
      using Cons.prems lt nge by (simp add: poll_byte_def Let_def s1_def)
    have ih: "poll_loop cs s1 xs = Inr (s1\<lparr>lastByteTime := fst (last xs),
            buffer := take (unat (bodyIdx s1)) (buffer s1) @ map snd xs @ drop (unat (bodyLen s1)) (buffer s1),
            bodyIdx := bodyLen s1,
            state := READ_CHECKSUM\<rparr>)"
      apply (rule Cons.IH)
      using Cons.prems False suc by (simp_all add: s1_def)
    have tk: "take (Suc (unat (bodyIdx s))) ((buffer s)[unat (bodyIdx s) := snd x]) = take (unat (bodyIdx s)) (buffer s) @ [snd x]"
      using lt Cons.prems(2) by (simp add: upd)
    have dr: "drop (unat (bodyLen s)) ((buffer s)[unat (bodyIdx s) := snd x]) = drop (unat (bodyLen s)) (buffer s)"
      using lt by simp
    show ?thesis using step ih False suc tk dr
      by (simp add: s1_def)
  qed
qed


lemma poll_header:
  assumes "state s = WAIT_START"
  shows "poll_loop cs s [(t1, FRAME_START_BYTE), (t2, ucast (drop_bit 8 n)), (t3, ucast n)] =
     Inr (if n = 0 \<or> unat n > MAX_MSG_LEN
          then s\<lparr>lastByteTime := t3, bodyLen := n, state := WAIT_START\<rparr>
          else s\<lparr>lastByteTime := t3, bodyLen := n, bodyIdx := 0, state := READ_BODY\<rparr>)"
  using assms by (simp add: poll_byte_def Let_def len_bytes_combine)

lemma poll_checksum:
  assumes "state s = READ_CHECKSUM" "1 \<le> unat (bodyLen s)" "unat (bodyLen s) \<le> length (buffer s)"
  shows "poll_loop cs s [(t, c)] =
     Inr ((if c = cs (take (unat (bodyLen s)) (buffer s))
           then processMessage (s\<lparr>lastByteTime := t\<rparr>) (buffer s ! 0) (drop 1 (buffer s)) (bodyLen s - 1)
           else s\<lparr>lastByteTime := t\<rparr>)\<lparr>state := WAIT_START\<rparr>)"
  using assms by (simp add: poll_byte_def Let_def)

lemma unat_of_nat_u16: "n \<le> 512 \<Longrightarrow> unat (of_nat n :: u16) = n"
  by (simp add: unat_of_nat take_bit_nat_eq_self)

lemma map_snd_frame:
  assumes "map snd inp = a # b # c # body @ [k]"
  obtains t1 t2 t3 ibody t5 where
    "inp = [(t1, a), (t2, b), (t3, c)] @ ibody @ [(t5, k)]" "map snd ibody = body"
proof -
  from assms obtain x1 x2 x3 rest where inp: "inp = x1 # x2 # x3 # rest"
    and 1: "snd x1 = a" "snd x2 = b" "snd x3 = c" and r: "map snd rest = body @ [k]"
    by (auto simp: map_eq_Cons_conv)
  from r obtain ibody lst where rest: "rest = ibody @ lst" and ib: "map snd ibody = body"
    and l: "map snd lst = [k]"
    by (auto simp: map_eq_append_conv)
  from l obtain x5 where lst: "lst = [x5]" and 5: "snd x5 = k" by (auto simp: map_eq_Cons_conv)
  have "inp = [(fst x1, a), (fst x2, b), (fst x3, c)] @ ibody @ [(fst x5, k)]"
    using inp rest lst 1 5 by (cases x1; cases x2; cases x3; cases x5) simp
  then show ?thesis using ib that by blast
qed


lemma poll_frame:
  assumes st: "state s = WAIT_START"
    and len: "length (buffer s) = MAX_MSG_LEN"
    and ne: "body \<noteq> []"
    and le: "length body \<le> MAX_MSG_LEN"
    and n: "n = of_nat (length body)"
    and inp: "map snd inp = FRAME_START_BYTE # ucast (drop_bit 8 n) # ucast n # body @ [c]"
  shows "poll_loop cs s inp =
     Inr ((if c = cs body
           then processMessage (after_body s (fst (last inp)) body) (hd body)
                  (tl body @ drop (length body) (buffer s)) (n - 1)
           else after_body s (fst (last inp)) body)\<lparr>state := WAIT_START\<rparr>)"
proof -
  from inp obtain t1 t2 t3 ibody t5 where
    inp_eq: "inp = [(t1, FRAME_START_BYTE), (t2, ucast (drop_bit 8 n)), (t3, ucast n)] @ ibody @ [(t5, c)]"
    and ib: "map snd ibody = body"
    by (rule map_snd_frame)
  have lb: "length ibody = length body" using ib by (metis length_map)
  have un: "unat n = length body" using n le by (simp add: unat_of_nat_u16 MAX_MSG_LEN_def)
  have n0: "n \<noteq> 0" using un ne by (metis length_0_conv unat_0)
  define s1 where "s1 = s\<lparr>lastByteTime := t3, bodyLen := n, bodyIdx := 0, state := READ_BODY\<rparr>"
  have h: "poll_loop cs s [(t1, FRAME_START_BYTE), (t2, ucast (drop_bit 8 n)), (t3, ucast n)] = Inr s1"
    using poll_header[OF st, of cs t1 t2 n t3] n0 un le by (simp add: s1_def)
  define s2 where "s2 = s1\<lparr>lastByteTime := fst (last ibody),
            buffer := take (unat (bodyIdx s1)) (buffer s1) @ map snd ibody @ drop (unat (bodyLen s1)) (buffer s1),
            bodyIdx := bodyLen s1, state := READ_CHECKSUM\<rparr>"
  have b: "poll_loop cs s1 ibody = Inr s2"
    unfolding s2_def
    apply (rule poll_body)
    using un lb le len ne by (auto simp: s1_def)
  have s2_eq: "s2 = after_body s (fst (last ibody)) body"
    using ib un n by (simp add: s2_def s1_def after_body_def)
  have c: "poll_loop cs s2 [(t5, c)] =
     Inr ((if c = cs (take (unat (bodyLen s2)) (buffer s2))
           then processMessage (s2\<lparr>lastByteTime := t5\<rparr>) (buffer s2 ! 0) (drop 1 (buffer s2)) (bodyLen s2 - 1)
           else s2\<lparr>lastByteTime := t5\<rparr>)\<lparr>state := WAIT_START\<rparr>)"
    apply (rule poll_checksum)
    using un ne le len n by (auto simp: s2_eq after_body_def Suc_le_eq)
  have t: "s2\<lparr>lastByteTime := t5\<rparr> = after_body s (fst (last inp)) body"
    by (simp add: s2_eq after_body_def inp_eq)
  have tk: "take (unat (bodyLen s2)) (buffer s2) = body"
    using un n by (simp add: s2_eq after_body_def)
  have hd0: "buffer s2 ! 0 = hd body" using ne by (cases body) (simp_all add: s2_eq after_body_def)
  have dr: "drop 1 (buffer s2) = tl body @ drop (length body) (buffer s)"
    using ne by (cases body) (simp_all add: s2_eq after_body_def)
  have bl: "bodyLen s2 = n" using n by (simp add: s2_eq after_body_def)
  show ?thesis
    unfolding inp_eq
    by (simp only: poll_loop_append h b c sum.case t[unfolded inp_eq] tk tk[unfolded bl] hd0 dr bl)
qed

lemma processMessage_fields [simp]:
  "state (processMessage s t p l) = state s"
  "buffer (processMessage s t p l) = buffer s"
  "bodyLen (processMessage s t p l) = bodyLen s"
  "bodyIdx (processMessage s t p l) = bodyIdx s"
  "lastByteTime (processMessage s t p l) = lastByteTime s"
  "onDisplayText (processMessage s t p l) = onDisplayText s"
  "onStatusText (processMessage s t p l) = onStatusText s"
  "onSetLeds (processMessage s t p l) = onSetLeds s"
  "onClearDisplay (processMessage s t p l) = onClearDisplay s"
  "onSetLabels (processMessage s t p l) = onSetLabels s"
  "bridgeConnected (processMessage s t p l) = True"
  "dispatched (processMessage s t p l) = dispatched s @ [(t, take (unat l) p)]"
  by (simp_all add: processMessage_def Let_def split: prod.splits)

lemma unat_pred_u16: "1 \<le> k \<Longrightarrow> k \<le> 512 \<Longrightarrow> unat ((of_nat k :: u16) - 1) = k - 1"
  by (metis (no_types, opaque_lifting) One_nat_def unat_of_nat_u16 unat_minus_one unat_0 not_one_le_zero)

lemma poll_WAIT_START: "state s = WAIT_START \<Longrightarrow> poll cs s now inp = poll_loop cs s inp"
  by (simp add: poll_def)

lemma poll_frame_ok:
  assumes "state s = WAIT_START"
    and "length (buffer s) = MAX_MSG_LEN"
    and "1 \<le> length body" and "length body \<le> 512"
    and "map snd inp =
           [0xAA, ucast (drop_bit 8 (of_nat (length body) :: u16)), ucast (of_nat (length body) :: u16)]
           @ body @ [checksum body]"
  shows "poll_loop checksum s inp =
     Inr ((processMessage (after_body s (fst (last inp)) body) (hd body)
                  (tl body @ drop (length body) (buffer s)) (of_nat (length body) - 1))\<lparr>state := WAIT_START\<rparr>)"
proof -
  have ne: "body \<noteq> []" using assms(3) by auto
  show ?thesis
    using poll_frame[OF assms(1,2) ne _ refl, of inp "checksum body" checksum] assms(4,5)
    by (simp add: MAX_MSG_LEN_def FRAME_START_BYTE_def)
qed

lemma poll_frame_bad:
  assumes "state s = WAIT_START"
    and "length (buffer s) = MAX_MSG_LEN"
    and "1 \<le> length body" and "length body \<le> 512"
    and "c \<noteq> checksum body"
    and "map snd inp =
           [0xAA, ucast (drop_bit 8 (of_nat (length body) :: u16)), ucast (of_nat (length body) :: u16)]
           @ body @ [c]"
  shows "poll_loop checksum s inp = Inr ((after_body s (fst (last inp)) body)\<lparr>state := WAIT_START\<rparr>)"
proof -
  have ne: "body \<noteq> []" using assms(3) by auto
  show ?thesis
    using poll_frame[OF assms(1,2) ne _ refl, of inp c checksum] assms(4,5,6)
    by (simp add: MAX_MSG_LEN_def FRAME_START_BYTE_def)
qed

lemma take_payload:
  assumes "1 \<le> length body" and "length body \<le> 512"
  shows "take (unat ((of_nat (length body) :: u16) - 1)) (tl body @ rest) = tl body"
  using assms by (simp add: unat_pred_u16)

lemma poll_frame_dispatch:
  assumes "state s = WAIT_START"
    and "length (buffer s) = MAX_MSG_LEN"
    and "1 \<le> length body" and "length body \<le> 512"
    and "map snd inp =
           [0xAA, ucast (drop_bit 8 (of_nat (length body) :: u16)), ucast (of_nat (length body) :: u16)]
           @ body @ [checksum body]"
  shows "\<exists>s'. poll_loop checksum s inp = Inr s' \<and>
              dispatched s' = dispatched s @ [(hd body, tl body)] \<and>
              state s' = WAIT_START \<and> bridgeConnected s' \<and> length (buffer s') = MAX_MSG_LEN"
  using poll_frame_ok[where checksum = checksum, OF assms] take_payload[OF assms(3,4)] assms(2,3,4)
  by (simp add: after_body_def MAX_MSG_LEN_def)

lemma processMessage_calls_other:
  assumes "msgType \<noteq> MSG_DISPLAY_TEXT" "msgType \<noteq> MSG_STATUS" "msgType \<noteq> MSG_SET_LEDS"
    "msgType \<noteq> MSG_CLEAR" "msgType \<noteq> MSG_SET_LABELS"
  shows "calls (processMessage s msgType p l) = calls s"
  using assms by (simp add: processMessage_def Let_def)

lemma processMessage_calls_empty:
  assumes "msgType \<noteq> MSG_CLEAR"
  shows "calls (processMessage s msgType p 0) = calls s"
  using assms by (simp add: processMessage_def Let_def)

lemma processMessage_calls_clear:
  "calls (processMessage s MSG_CLEAR p l) =
     calls s @ (if onClearDisplay s then [ClearDisplayCall] else [])"
  by (simp add: processMessage_def Let_def msg_defs)

lemma poll_loop_snoc:
  "poll_loop cs s (pre @ [x]) =
     (case poll_loop cs s pre of Inl e \<Rightarrow> Inl e | Inr s1 \<Rightarrow> poll_byte cs s1 x)"
  by (simp add: poll_loop_append split: sum.splits)

lemma poll_byte_lastByteTime:
  "poll_byte cs s x = Inr s' \<Longrightarrow> lastByteTime s' = fst x"
  by (cases "state s") (auto simp: poll_byte_def Let_def split: if_splits)

lemma poll_byte_gate:
  assumes "poll_byte cs s x = Inr s'"
    and "dispatched s' \<noteq> dispatched s \<or> calls s' \<noteq> calls s \<or> bridgeConnected s' \<noteq> bridgeConnected s"
  shows "state s = READ_CHECKSUM \<and> snd x = cs (take (unat (bodyLen s)) (buffer s)) \<and>
         dispatched s' = dispatched s @ [(buffer s ! 0, take (unat (bodyLen s - 1)) (drop 1 (buffer s)))]"
  using assms by (cases "state s") (auto simp: poll_byte_def Let_def split: if_splits)

lemma poll_timeout:
  assumes "state s \<noteq> WAIT_START" "now - lastByteTime s > 500"
  shows "poll cs s now inp = poll_loop cs (s\<lparr>state := WAIT_START\<rparr>) inp"
  using assms by (simp add: poll_def FRAME_TIMEOUT_MS_def)

lemma poll_snoc:
  "poll cs s now (pre @ [x]) =
     (case poll cs s now pre of Inl e \<Rightarrow> Inl e | Inr s1 \<Rightarrow> poll_byte cs s1 x)"
  by (simp add: poll_def poll_loop_snoc)

lemma poll_bad_length:
  assumes "state s = WAIT_START" "n = 0 \<or> unat n > 512"
    "map snd inp = [0xAA, ucast (drop_bit 8 n), ucast n]"
  shows "poll_loop cs s inp = Inr (s\<lparr>lastByteTime := fst (last inp), bodyLen := n, state := WAIT_START\<rparr>)"
proof -
  from assms(3) obtain t1 t2 t3 where
    inp: "inp = [(t1, FRAME_START_BYTE), (t2, ucast (drop_bit 8 n)), (t3, ucast n)]"
    by (auto simp: map_eq_Cons_conv FRAME_START_BYTE_def)
  show ?thesis unfolding inp using poll_header[OF assms(1), of cs t1 t2 n t3] assms(2)
    by (auto simp: MAX_MSG_LEN_def)
qed

lemma after_body_fields [simp]:
  "calls (after_body s t body) = calls s"
  "dispatched (after_body s t body) = dispatched s"
  "bridgeConnected (after_body s t body) = bridgeConnected s"
  "onDisplayText (after_body s t body) = onDisplayText s"
  "onStatusText (after_body s t body) = onStatusText s"
  "onSetLeds (after_body s t body) = onSetLeds s"
  "onClearDisplay (after_body s t body) = onClearDisplay s"
  "onSetLabels (after_body s t body) = onSetLabels s"
  "labelBufs (after_body s t body) = labelBufs s"
  "lastByteTime (after_body s t body) = t"
  by (simp_all add: after_body_def)

lemma processMessage_other:
  assumes "msgType \<noteq> MSG_DISPLAY_TEXT" "msgType \<noteq> MSG_STATUS" "msgType \<noteq> MSG_SET_LEDS"
    "msgType \<noteq> MSG_CLEAR" "msgType \<noteq> MSG_SET_LABELS"
  shows "processMessage s msgType p l =
           s\<lparr>bridgeConnected := True, dispatched := dispatched s @ [(msgType, take (unat l) p)]\<rparr>"
  using assms by (simp add: processMessage_def Let_def)

subsection \<open>The labels loop\<close>

lemma unat_u16_bound: "unat (w :: u16) < 65536"
  using unsigned_less[of w] by simp

lemma unat_copyLen: "unat (if (l :: u8) < 31 then l else 31) = min (unat l) 31"
  by (auto simp: word_less_nat_alt min_def)

lemma unat_ucast_u8_u16: "unat (ucast (l :: u8) :: u16) = unat l"
proof -
  have "unat l < 2 ^ 8" using unsigned_less[of l] by simp
  then have "unat l < 2 ^ 16" by simp
  then show ?thesis by (simp add: unsigned_ucast_eq take_bit_nat_eq_self)
qed

lemma unat_pos_add:
  fixes pos1 len :: u16 and l :: u8
  assumes "unat pos1 + unat l \<le> unat len"
  shows "unat (pos1 + ucast l) = unat pos1 + unat l"
proof -
  have "unat pos1 + unat l < 2 ^ 16" using assms unat_u16_bound[of len] by simp
  then show ?thesis by (simp add: unat_word_ariths unat_ucast_u8_u16)
qed

lemma label_buf_length:
  assumes "length old = 32" "c \<le> 31" "c \<le> length src"
  shows "length ((memcpy old src c)[c := 0]) = 32"
  using assms by (simp add: memcpy_def)

lemma set_labels_loop_stop:
  assumes "\<not> (pos < len \<and> k < 4)"
  shows "set_labels_loop payload len (labels, bufs, k, pos) = (labels, bufs)"
  using assms by (subst set_labels_loop.simps) auto

lemma set_labels_loop_over:
  assumes "unat len < unat (pos + 1) + unat (payload ! unat pos)"
  shows "set_labels_loop payload len (labels, bufs, k, pos) = (labels, bufs)"
  using assms by (subst set_labels_loop.simps) (auto simp: Let_def)

lemma set_labels_loop_step:
  assumes "pos < len" "k < 4" "\<not> unat len < unat (pos + 1) + unat (payload ! unat pos)"
  shows "set_labels_loop payload len (labels, bufs, k, pos) =
     set_labels_loop payload len
       (labels[k := LabelBuf k],
        bufs[k := (memcpy (bufs ! k) (drop (unat (pos + 1)) payload)
                    (unat (if payload ! unat pos < 31 then payload ! unat pos else 31)))
                  [unat (if payload ! unat pos < 31 then payload ! unat pos else 31) := 0]],
        k + 1, pos + 1 + ucast (payload ! unat pos))"
  using assms by (subst set_labels_loop.simps) (simp add: Let_def)

lemma set_labels_loop_shape:
  assumes "length bufs = 4" "\<forall>b\<in>set bufs. length b = 32"
    and "unat len \<le> length payload" "unat pos \<le> unat len"
  shows "length (snd (set_labels_loop payload len (labels, bufs, k, pos))) = 4 \<and>
         (\<forall>b\<in>set (snd (set_labels_loop payload len (labels, bufs, k, pos))). length b = 32)"
  using assms
proof (induction payload len "(labels, bufs, k, pos)" arbitrary: labels bufs k pos
    rule: set_labels_loop.induct)
  case (1 payload len labels bufs k pos)
  define l where "l = payload ! unat pos"
  define c where "c = (if l < 31 then l else 31)"
  define buf where "buf = (memcpy (bufs ! k) (drop (unat (pos + 1)) payload) (unat c))[unat c := 0]"
  consider (stop) "\<not> (pos < len \<and> k < 4)"
    | (over) "pos < len" "k < 4" "unat len < unat (pos + 1) + unat l"
    | (step) "pos < len" "k < 4" "\<not> unat len < unat (pos + 1) + unat l"
    by blast
  then show ?case
  proof cases
    case stop
    then show ?thesis using "1.prems" by (simp add: set_labels_loop_stop)
  next
    case over
    then show ?thesis using "1.prems" by (simp add: set_labels_loop_over l_def)
  next
    case step
    have lt: "unat pos < unat len" using step(1) by (simp add: word_less_nat_alt)
    have p1: "unat (pos + 1) = Suc (unat pos)" by (rule unat_succ_lt[OF lt])
    have uc: "unat c = min (unat l) 31" unfolding c_def by (rule unat_copyLen)
    have bk: "length (bufs ! k) = 32" using "1.prems"(1,2) step(2) by simp
    have bl: "length buf = 32"
      unfolding buf_def
      using bk "1.prems"(3) step(3) uc by (intro label_buf_length) auto
    have eq: "set_labels_loop payload len (labels, bufs, k, pos) =
        set_labels_loop payload len (labels[k := LabelBuf k], bufs[k := buf], k + 1, pos + 1 + ucast l)"
      unfolding buf_def c_def l_def
      by (rule set_labels_loop_step[OF step(1,2) step(3)[unfolded l_def]])
    have up: "unat (pos + 1 + ucast l) = unat (pos + 1) + unat l"
      using step(3) by (intro unat_pos_add[of _ _ len]) simp
    have all: "\<forall>b\<in>set (bufs[k := buf]). length b = 32"
      using "1.prems"(2) bl by (auto dest: set_update_subset_insert[THEN subsetD])
    have ih: "length (snd (set_labels_loop payload len (labels[k := LabelBuf k], bufs[k := buf], k + 1, pos + 1 + ucast l))) = 4 \<and>
       (\<forall>b\<in>set (snd (set_labels_loop payload len (labels[k := LabelBuf k], bufs[k := buf], k + 1, pos + 1 + ucast l))). length b = 32)"
    proof (rule "1.hyps"[OF conjI[OF step(1,2)] l_def refl step(3) c_def buf_def])
      show "length (bufs[k := buf]) = 4" using "1.prems"(1) by simp
      show "\<forall>b\<in>set (bufs[k := buf]). length b = 32" by (rule all)
      show "unat len \<le> length payload" by (rule "1.prems"(3))
      show "unat (pos + 1 + ucast l) \<le> unat len" using up step(3) by simp
    qed
    show ?thesis unfolding eq by (rule ih)
  qed
qed

lemma cstr_Nil [simp]: "cstr [] = []"
  by (simp add: cstr_def)

lemma cstr_nul: "cstr (xs @ 0 # zs) = cstr xs"
  by (induction xs) (simp_all add: cstr_def)

lemma cstr_length: "length (cstr xs) \<le> length xs"
  by (simp add: cstr_def length_takeWhile_le)

lemma label_buf_cstr:
  assumes "length old = 32" "c \<le> 31" "c \<le> length src"
  shows "cstr ((memcpy old src c)[c := 0]) = cstr (take c src)"
proof -
  have l: "length (take c src) = c" using assms(3) by simp
  obtain y ys where d: "drop c old = y # ys" using assms(1,2) by (cases "drop c old") auto
  have "(memcpy old src c)[c := 0] = take c src @ 0 # ys"
    unfolding memcpy_def using l d by (simp add: list_update_append)
  then show ?thesis by (simp add: cstr_nul)
qed

lemma label_records_Nil [simp]: "label_records n [] = []"
  by (cases n) simp_all

lemma label_records_length: "length (label_records n xs) \<le> n"
  by (induction n xs rule: label_records.induct) auto

lemma labels_out_init:
  assumes "k \<le> 4" "length bufs = 4"
  shows "labels_out (map LabelBuf [0..<k] @ replicate (4 - k) EmptyLit, bufs) =
           map (\<lambda>i. cstr (bufs ! i)) [0..<k] @ replicate (4 - k) []"
  by (simp add: labels_out_def label_str_def comp_def)

lemma labels_next:
  assumes "k < 4"
  shows "(map LabelBuf [0..<k] @ replicate (4 - k) EmptyLit)[k := LabelBuf k] =
         map LabelBuf [0..<k + 1] @ replicate (4 - (k + 1)) EmptyLit"
proof -
  have "replicate (4 - k) EmptyLit = EmptyLit # replicate (4 - (k + 1)) EmptyLit"
    using assms by (cases "4 - k") simp_all
  then show ?thesis by (simp add: list_update_append)
qed

lemma set_labels_loop_result:
  assumes "k \<le> 4" "length bufs = 4" "\<forall>b\<in>set bufs. length b = 32"
    and "unat len \<le> length payload" "unat pos \<le> unat len"
    and "labels = map LabelBuf [0..<k] @ replicate (4 - k) EmptyLit"
  shows "labels_out (set_labels_loop payload len (labels, bufs, k, pos)) =
           map (\<lambda>i. cstr (bufs ! i)) [0..<k] @
           pad_labels (4 - k) (label_records (4 - k) (drop (unat pos) (take (unat len) payload)))"
  using assms
proof (induction payload len "(labels, bufs, k, pos)" arbitrary: labels bufs k pos
    rule: set_labels_loop.induct)
  case (1 payload len labels bufs k pos)
  define l where "l = payload ! unat pos"
  define c where "c = (if l < 31 then l else 31)"
  define src where "src = drop (unat (pos + 1)) payload"
  define buf where "buf = (memcpy (bufs ! k) src (unat c))[unat c := 0]"
  define P where "P = take (unat len) payload"
  note lab = "1.prems"(6)
  consider (stop) "\<not> (pos < len \<and> k < 4)"
    | (over) "pos < len" "k < 4" "unat len < unat (pos + 1) + unat l"
    | (step) "pos < len" "k < 4" "\<not> unat len < unat (pos + 1) + unat l"
    by blast
  then show ?case
  proof cases
    case stop
    have "4 - k = 0 \<or> drop (unat pos) (take (unat len) payload) = []"
      using stop "1.prems"(1) by (auto simp: word_less_nat_alt)
    then have "label_records (4 - k) (drop (unat pos) (take (unat len) payload)) = []"
      by auto
    then show ?thesis
      using stop "1.prems"(1,2) unfolding lab
      by (simp add: set_labels_loop_stop labels_out_init pad_labels_def)
  next
    case over
    have lt: "unat pos < unat len" using over(1) by (simp add: word_less_nat_alt)
    have p1: "unat (pos + 1) = Suc (unat pos)" by (rule unat_succ_lt[OF lt])
    have dr: "drop (unat pos) P = l # drop (Suc (unat pos)) P"
      using lt "1.prems"(4) by (simp add: P_def l_def Cons_nth_drop_Suc[symmetric])
    have k4: "4 - k = Suc (3 - k)" using over(2) by simp
    have "label_records (Suc (3 - k)) (l # drop (Suc (unat pos)) P) = []"
      using over(3) p1 lt "1.prems"(4) by (simp add: P_def)
    then have "label_records (4 - k) (drop (unat pos) (take (unat len) payload)) = []"
      using dr k4 by (simp add: P_def)
    then show ?thesis
      using over "1.prems"(1,2) unfolding lab
      by (simp add: set_labels_loop_over l_def labels_out_init pad_labels_def P_def)
  next
    case step
    have lt: "unat pos < unat len" using step(1) by (simp add: word_less_nat_alt)
    have p1: "unat (pos + 1) = Suc (unat pos)" by (rule unat_succ_lt[OF lt])
    have uc: "unat c = min (unat l) 31" unfolding c_def by (rule unat_copyLen)
    have bk: "length (bufs ! k) = 32" using "1.prems"(2,3) step(2) by simp
    have srcl: "unat l \<le> length src" using step(3) "1.prems"(4) by (simp add: src_def)
    have bl: "length buf = 32"
      unfolding buf_def using bk srcl uc by (intro label_buf_length) auto
    have bc: "cstr buf = cstr (take (unat c) src)"
      unfolding buf_def using bk srcl uc by (intro label_buf_cstr) auto
    have eq: "set_labels_loop payload len (labels, bufs, k, pos) =
        set_labels_loop payload len (labels[k := LabelBuf k], bufs[k := buf], k + 1, pos + 1 + ucast l)"
      unfolding buf_def c_def l_def src_def
      by (rule set_labels_loop_step[OF step(1,2) step(3)[unfolded l_def]])
    have up: "unat (pos + 1 + ucast l) = unat (pos + 1) + unat l"
      using step(3) by (intro unat_pos_add[of _ _ len]) simp
    have all: "\<forall>b\<in>set (bufs[k := buf]). length b = 32"
      using "1.prems"(3) bl by (auto dest: set_update_subset_insert[THEN subsetD])
    have ih: "labels_out (set_labels_loop payload len (labels[k := LabelBuf k], bufs[k := buf], k + 1, pos + 1 + ucast l)) =
           map (\<lambda>i. cstr (bufs[k := buf] ! i)) [0..<k + 1] @
           pad_labels (4 - (k + 1)) (label_records (4 - (k + 1)) (drop (unat (pos + 1 + ucast l)) (take (unat len) payload)))"
    proof (rule "1.hyps"[OF conjI[OF step(1,2)] l_def refl step(3) c_def buf_def[unfolded src_def]])
      show "k + 1 \<le> 4" using step(2) by simp
      show "length (bufs[k := buf]) = 4" using "1.prems"(2) by simp
      show "\<forall>b\<in>set (bufs[k := buf]). length b = 32" by (rule all)
      show "unat len \<le> length payload" by (rule "1.prems"(4))
      show "unat (pos + 1 + ucast l) \<le> unat len" using up step(3) by simp
      show "labels[k := LabelBuf k] = map LabelBuf [0..<k + 1] @ replicate (4 - (k + 1)) EmptyLit"
        by (rule labels_next[OF step(2), folded lab])
    qed
    have m: "map (\<lambda>i. cstr (bufs[k := buf] ! i)) [0..<k + 1] =
             map (\<lambda>i. cstr (bufs ! i)) [0..<k] @ [cstr buf]"
      using step(2) "1.prems"(2) by simp
    have dr: "drop (unat pos) P = l # drop (Suc (unat pos)) P"
      using lt "1.prems"(4) by (simp add: P_def l_def Cons_nth_drop_Suc[symmetric])
    have rest: "drop (Suc (unat pos)) P = take (unat len - Suc (unat pos)) src"
      by (simp add: P_def src_def p1 drop_take)
    have fit: "unat l \<le> unat len - Suc (unat pos)" using step(3) p1 by simp
    have tk: "take 31 (take (unat l) (drop (Suc (unat pos)) P)) = take (unat c) src"
      using fit by (simp add: rest uc min_def)
    have dr2: "drop (unat l) (drop (Suc (unat pos)) P) = drop (unat (pos + 1 + ucast l)) P"
    proof -
      have "unat (pos + 1 + ucast l) = unat l + Suc (unat pos)" using up p1 by simp
      then show ?thesis by (simp only: drop_drop)
    qed
    have k4: "4 - k = Suc (4 - (k + 1))" using step(2) by simp
    have ll: "length (drop (Suc (unat pos)) P) = unat len - Suc (unat pos)"
      using "1.prems"(4) by (simp add: P_def)
    have rec: "label_records (4 - k) (drop (unat pos) P) =
        take (unat c) src # label_records (4 - (k + 1)) (drop (unat (pos + 1 + ucast l)) P)"
      unfolding k4 dr using fit ll tk dr2 by simp
    have pad: "pad_labels (4 - k) (label_records (4 - k) (drop (unat pos) P)) =
        cstr buf # pad_labels (4 - (k + 1)) (label_records (4 - (k + 1)) (drop (unat (pos + 1 + ucast l)) P))"
      unfolding rec by (simp add: pad_labels_def bc k4)
    show ?thesis
      unfolding eq ih m using pad by (simp add: P_def)
  qed
qed

subsection \<open>The invariant is kept\<close>

lemma labels_spec_pad: "map cstr (labels_spec P) = pad_labels 4 (label_records 4 P)"
  by (simp add: labels_spec_def pad_labels_def Let_def)

lemma processMessage_labels:
  assumes "shape_ok s" "onSetLabels s" "0 < len" "unat len \<le> length payload"
  shows "calls (processMessage s MSG_SET_LABELS payload len) =
           calls s @ [SetLabelsCall (map cstr (labels_spec (take (unat len) payload)))]"
proof -
  have b: "length (labelBufs s) = 4" "\<forall>b\<in>set (labelBufs s). length b = 32"
    using assms(1) by (simp_all add: shape_ok_def list_all_iff)
  have r: "labels_out (set_labels_loop payload len (replicate 4 EmptyLit, labelBufs s, 0, 0)) =
           pad_labels 4 (label_records 4 (take (unat len) payload))"
    using set_labels_loop_result[where k = 0 and pos = 0 and bufs = "labelBufs s"
        and len = len and payload = payload and labels = "replicate 4 EmptyLit"] b assms(4)
    by simp
  show ?thesis
    using assms(2,3) r
    by (simp add: processMessage_def Let_def msg_defs labels_out_def labels_spec_pad case_prod_beta)
qed

lemma processMessage_shape_ok:
  assumes "shape_ok s" "unat len \<le> length payload"
  shows "shape_ok (processMessage s msgType payload len)"
proof -
  have b: "length (labelBufs s) = 4" "\<forall>b\<in>set (labelBufs s). length b = 32"
    using assms(1) by (simp_all add: shape_ok_def list_all_iff)
  have sh: "length (snd (set_labels_loop payload len (replicate 4 EmptyLit, labelBufs s, 0, 0))) = 4 \<and>
         (\<forall>b\<in>set (snd (set_labels_loop payload len (replicate 4 EmptyLit, labelBufs s, 0, 0))). length b = 32)"
    using b assms(2) by (intro set_labels_loop_shape) simp_all
  show ?thesis
    using assms(1) sh
    by (auto simp: processMessage_def Let_def shape_ok_def list_all_iff split: prod.splits)
qed

lemma poll_byte_inv:
  assumes "decoder_inv s"
  shows "\<exists>s'. poll_byte cs s x = Inr s' \<and> decoder_inv s'"
proof (cases "state s")
  case WAIT_START
  then show ?thesis using assms by (simp add: poll_byte_def Let_def decoder_inv_def shape_ok_def)
next
  case READ_LEN_HI
  then show ?thesis using assms by (simp add: poll_byte_def Let_def decoder_inv_def shape_ok_def)
next
  case READ_LEN_LO
  have "n \<noteq> 0 \<Longrightarrow> Suc 0 \<le> unat n" for n :: u16
    by (simp add: Suc_le_eq unat_gt_0)
  then show ?thesis using READ_LEN_LO assms
    by (simp add: poll_byte_def Let_def decoder_inv_def shape_ok_def unat_gt_0)
next
  case READ_BODY
  have lt: "unat (bodyIdx s) < unat (bodyLen s)" and le: "unat (bodyLen s) \<le> MAX_MSG_LEN"
    and one: "1 \<le> unat (bodyLen s)" and bl: "length (buffer s) = MAX_MSG_LEN"
    using READ_BODY assms by (simp_all add: decoder_inv_def shape_ok_def)
  have suc: "unat (bodyIdx s + 1) = Suc (unat (bodyIdx s))" by (rule unat_succ_lt[OF lt])
  show ?thesis using READ_BODY assms lt le suc
    by (simp add: poll_byte_def Let_def decoder_inv_def shape_ok_def word_le_nat_alt)
next
  case READ_CHECKSUM
  have le: "unat (bodyLen s) \<le> MAX_MSG_LEN"
    and one: "1 \<le> unat (bodyLen s)" and bl: "length (buffer s) = MAX_MSG_LEN"
    using READ_CHECKSUM assms by (simp_all add: decoder_inv_def shape_ok_def)
  have n0: "bodyLen s \<noteq> 0" using one by auto
  have "unat (bodyLen s - 1) \<le> length (drop 1 (buffer s))"
    using le bl n0 by (simp add: unat_minus_one)
  then have w: "shape_ok (processMessage (s\<lparr>lastByteTime := fst x\<rparr>) (buffer s ! 0) (drop 1 (buffer s)) (bodyLen s - 1))"
    using assms by (intro processMessage_shape_ok) (simp_all add: decoder_inv_def shape_ok_def)
  have w2: "shape_ok ((processMessage (s\<lparr>lastByteTime := fst x\<rparr>) (buffer s ! 0) (drop 1 (buffer s)) (bodyLen s - 1))\<lparr>state := WAIT_START\<rparr>)"
    using w by (simp add: shape_ok_def)
  show ?thesis using READ_CHECKSUM assms le one bl w2
    by (simp add: poll_byte_def Let_def decoder_inv_def) (simp add: shape_ok_def)
qed

lemma poll_loop_inv:
  assumes "decoder_inv s"
  shows "\<exists>s'. poll_loop cs s inp = Inr s' \<and> decoder_inv s'"
  using assms
proof (induction inp arbitrary: s)
  case Nil
  then show ?case by simp
next
  case (Cons x xs)
  from poll_byte_inv[OF Cons.prems, of cs x] obtain s1 where
    "poll_byte cs s x = Inr s1" "decoder_inv s1" by blast
  then show ?case using Cons.IH[of s1] by simp
qed

lemma poll_inv:
  assumes "decoder_inv s"
  shows "\<exists>s'. poll cs s now inp = Inr s' \<and> decoder_inv s'"
proof -
  have "decoder_inv (s\<lparr>state := WAIT_START\<rparr>)" using assms by (simp add: decoder_inv_def shape_ok_def)
  then show ?thesis using assms poll_loop_inv by (simp add: poll_def)
qed

lemma exec_inv:
  assumes "decoder_inv s"
  shows "\<exists>s'. exec cs s x = Inr s' \<and> decoder_inv s'"
  using assms poll_inv[OF assms]
  by (cases x) (simp_all add: decoder_inv_def shape_ok_def begin'_def)

lemma run_inv:
  assumes "decoder_inv s"
  shows "\<exists>s'. run cs s ops = Inr s' \<and> decoder_inv s'"
  using assms
proof (induction ops arbitrary: s)
  case Nil
  then show ?case by simp
next
  case (Cons x xs)
  from exec_inv[OF Cons.prems, of cs x] obtain s1 where
    "exec cs s x = Inr s1" "decoder_inv s1" by blast
  then show ?case using Cons.IH[of s1] by simp
qed

lemma decoder_inv_init: "decoder_inv SerialComms_init"
  by (simp add: decoder_inv_def shape_ok_def SerialComms_init_def MAX_MSG_LEN_def list_all_iff)

lemma poll_byte_enter_body:
  assumes "poll_byte cs s x = Inr s'" "state s \<noteq> READ_BODY" "state s' = READ_BODY"
  shows "1 \<le> unat (bodyLen s') \<and> unat (bodyLen s') \<le> 512 \<and> bodyIdx s' = 0"
proof -
  have "n \<noteq> 0 \<Longrightarrow> Suc 0 \<le> unat n" for n :: u16
    by (simp add: Suc_le_eq unat_gt_0)
  then show ?thesis using assms
    by (cases "state s") (auto simp: poll_byte_def Let_def MAX_MSG_LEN_def split: if_splits)
qed

lemma labels_spec_length: "length (labels_spec P) = 4"
  using label_records_length[of 4 P] by (simp add: labels_spec_def Let_def)

lemma label_records_short: "\<forall>t\<in>set (label_records n xs). length t \<le> 31"
  by (induction n xs rule: label_records.induct) auto

lemma labels_spec_short: "\<forall>t\<in>set (map cstr (labels_spec P)). length t \<le> 31"
proof -
  have "length (cstr t) \<le> 31" if "t \<in> set (label_records 4 P)" for t
    using that label_records_short[of 4 P] cstr_length[of t] by force
  then show ?thesis by (auto simp: labels_spec_def Let_def)
qed

lemma labels_spec_third_over:
  assumes "length t1 = unat l1" "length t2 = unat l2" "length rest < unat l3"
  shows "labels_spec (l1 # t1 @ l2 # t2 @ l3 # rest) = [take 31 t1, take 31 t2, [], []]"
proof -
  have 4: "(4 :: nat) = Suc (Suc (Suc (Suc 0)))" by simp
  show ?thesis using assms unfolding labels_spec_def Let_def 4 by simp
qed

subsection \<open>The connectivity flag and the dispatch log\<close>

lemma poll_byte_conn:
  assumes "poll_byte cs s x = Inr s'"
  shows "(bridgeConnected s' \<and> dispatched s' \<noteq> []) \<or>
         (bridgeConnected s' = bridgeConnected s \<and> dispatched s' = dispatched s)"
  using assms by (cases "state s") (auto simp: poll_byte_def Let_def split: if_splits)

lemma poll_loop_conn:
  assumes "poll_loop cs s inp = Inr s'"
  shows "(bridgeConnected s' \<and> dispatched s' \<noteq> []) \<or>
         (bridgeConnected s' = bridgeConnected s \<and> dispatched s' = dispatched s)"
  using assms
proof (induction inp arbitrary: s)
  case Nil
  then show ?case by simp
next
  case (Cons x xs)
  then obtain s1 where 1: "poll_byte cs s x = Inr s1" and 2: "poll_loop cs s1 xs = Inr s'"
    by (auto split: sum.splits)
  from poll_byte_conn[OF 1] Cons.IH[OF 2] show ?case by auto
qed

lemma exec_conn:
  assumes "exec cs s x = Inr s'"
  shows "(bridgeConnected s' \<and> dispatched s' \<noteq> []) \<or>
         (bridgeConnected s' = bridgeConnected s \<and> dispatched s' = dispatched s)"
proof (cases x)
  case (Poll now inp)
  then have "poll_loop cs (if state s \<noteq> WAIT_START \<and> now - lastByteTime s > FRAME_TIMEOUT_MS
        then s\<lparr>state := WAIT_START\<rparr> else s) inp = Inr s'"
    using assms by (simp add: poll_def)
  from poll_loop_conn[OF this] show ?thesis by (auto split: if_splits)
qed (use assms in \<open>auto simp: begin'_def\<close>)

lemma run_conn:
  assumes "run cs s ops = Inr s'"
  shows "(bridgeConnected s' \<and> dispatched s' \<noteq> []) \<or>
         (bridgeConnected s' = bridgeConnected s \<and> dispatched s' = dispatched s)"
  using assms
proof (induction ops arbitrary: s)
  case Nil
  then show ?case by simp
next
  case (Cons x xs)
  then obtain s1 where 1: "exec cs s x = Inr s1" and 2: "run cs s1 xs = Inr s'"
    by (auto split: sum.splits)
  from exec_conn[OF 1] Cons.IH[OF 2] show ?case by auto
qed

subsection \<open>A frame read in two calls\<close>

lemma poll_loop_lastByteTime:
  assumes "poll_loop cs s inp = Inr s1" "inp \<noteq> []"
  shows "lastByteTime s1 = fst (last inp)"
proof -
  from assms(2) obtain pre x where inp: "inp = pre @ [x]" by (metis rev_exhaust)
  from assms(1) obtain s0 where "poll_byte cs s0 x = Inr s1"
    unfolding inp by (auto simp: poll_loop_snoc split: sum.splits)
  then show ?thesis by (simp add: inp poll_byte_lastByteTime)
qed

lemma poll_two_calls:
  assumes "poll_loop cs s (inp1 @ inp2) = Inr s'" "state s = WAIT_START"
    and "inp1 \<noteq> []" "now2 - fst (last inp1) \<le> 500"
  shows "\<exists>s1. poll cs s now inp1 = Inr s1 \<and> poll cs s1 now2 inp2 = Inr s'"
proof -
  from assms(1) obtain s1 where 1: "poll_loop cs s inp1 = Inr s1" and 2: "poll_loop cs s1 inp2 = Inr s'"
    by (auto simp: poll_loop_append split: sum.splits)
  have t: "lastByteTime s1 = fst (last inp1)" by (rule poll_loop_lastByteTime[OF 1 assms(3)])
  have "\<not> now2 - lastByteTime s1 > FRAME_TIMEOUT_MS"
    using assms(4) by (simp add: t FRAME_TIMEOUT_MS_def not_less)
  then have "poll cs s1 now2 inp2 = Inr s'" using 2 by (simp add: poll_def)
  then show ?thesis using 1 assms(2) by (simp add: poll_WAIT_START)
qed

lemma cstr_no_nul: "0 \<notin> set t \<Longrightarrow> cstr t = t"
  by (auto simp: cstr_def takeWhile_eq_all_conv)

section \<open>Decoding a valid frame\<close>

text \<open>
  C1. For every body with \<open>1 \<le> BODY_LEN \<le> 512\<close>: a call of \<^verbatim>\<open>poll\<close> on a decoder in
  \<^verbatim>\<open>WAIT_START\<close> that reads the bytes 0xAA, BODY\_LEN (two bytes, big-endian), the body and
  the checksum of the body, whatever the clock values, invokes \<^verbatim>\<open>processMessage\<close> exactly
  once, with the first body byte as type and the remaining bytes as payload, and leaves the
  decoder in \<^verbatim>\<open>WAIT_START\<close>. The same holds when the bytes arrive in two calls of
  \<^verbatim>\<open>poll\<close>, the second made no more than 500 ms after the last byte of the first.
\<close>

theorem valid_frame_decode:
  assumes "state s = WAIT_START"
    and "length (buffer s) = MAX_MSG_LEN"
    and "1 \<le> length body" and "length body \<le> 512"
    and "map snd inp =
           [0xAA, ucast (drop_bit 8 (of_nat (length body) :: u16)), ucast (of_nat (length body) :: u16)]
           @ body @ [checksum body]"
  shows "(\<exists>s'. poll checksum s now inp = Inr s' \<and>
              dispatched s' = dispatched s @ [(hd body, tl body)] \<and>
              state s' = WAIT_START) \<and>
         (inp = inp1 @ inp2 \<and> inp1 \<noteq> [] \<and> now2 - fst (last inp1) \<le> 500 \<longrightarrow>
            (\<exists>s1 s'. poll checksum s now inp1 = Inr s1 \<and>
                    poll checksum s1 now2 inp2 = Inr s' \<and>
                    dispatched s' = dispatched s @ [(hd body, tl body)] \<and>
                    state s' = WAIT_START))"
proof -
  from poll_frame_dispatch[where checksum = checksum, OF assms]
  obtain s' where p: "poll_loop checksum s inp = Inr s'"
    and d: "dispatched s' = dispatched s @ [(hd body, tl body)]" and st: "state s' = WAIT_START"
    by blast
  have 1: "\<exists>s'. poll checksum s now inp = Inr s' \<and>
              dispatched s' = dispatched s @ [(hd body, tl body)] \<and> state s' = WAIT_START"
    using p d st assms(1) by (simp add: poll_WAIT_START)
  have 2: "\<exists>s1 s'. poll checksum s now inp1 = Inr s1 \<and>
                    poll checksum s1 now2 inp2 = Inr s' \<and>
                    dispatched s' = dispatched s @ [(hd body, tl body)] \<and>
                    state s' = WAIT_START"
    if "inp = inp1 @ inp2 \<and> inp1 \<noteq> [] \<and> now2 - fst (last inp1) \<le> 500"
  proof -
    have "poll_loop checksum s (inp1 @ inp2) = Inr s'" using p that by simp
    from poll_two_calls[OF this assms(1), of now2 now] that
    obtain s1 where "poll checksum s now inp1 = Inr s1" "poll checksum s1 now2 inp2 = Inr s'"
      by blast
    then show ?thesis using d st by blast
  qed
  show ?thesis using 1 2 by blast
qed

theorem valid_frame_decode_witness:
  "(\<exists>s'. poll sum8 SerialComms_init 0
           [(1, 0xAA), (2, 0), (3, 3), (4, 2), (5, 2), (6, 1), (7, 5)] = Inr s' \<and>
        dispatched s' = [(2, [2, 1])] \<and> state s' = WAIT_START) \<and>
   (\<exists>s1 s'. poll sum8 SerialComms_init 0 [(1, 0xAA), (2, 0), (3, 3), (4, 2)] = Inr s1 \<and>
        poll sum8 s1 300 [(5, 2), (6, 1), (7, 5)] = Inr s' \<and>
        dispatched s' = [(2, [2, 1])] \<and> state s' = WAIT_START)"
  using valid_frame_decode [where s = SerialComms_init and checksum = sum8 and now = 0
      and body = "[2, 2, 1]"
      and inp = "[(1, 0xAA), (2, 0), (3, 3), (4, 2), (5, 2), (6, 1), (7, 5)]"
      and ?inp1.0 = "[(1, 0xAA), (2, 0), (3, 3), (4, 2)]"
      and ?inp2.0 = "[(5, 2), (6, 1), (7, 5)]" and ?now2.0 = 300]
  by (simp add: SerialComms_init_def sum8_def MAX_MSG_LEN_def word_le_nat_alt)

section \<open>Round trip through the encoder\<close>

text \<open>
  C3. For every message type byte and every payload of length \<open>len \<le> 511\<close> (the pointer
  \<^verbatim>\<open>payload\<close> holding at least \<open>len\<close> bytes): a call of \<^verbatim>\<open>poll\<close> on a decoder in
  \<^verbatim>\<open>WAIT_START\<close> that reads the bytes written by \<^verbatim>\<open>sendFrame\<close> for that type and payload
  invokes \<^verbatim>\<open>processMessage\<close> exactly once, with that type and that payload. The encoder
  \<open>buildFrame\<close> is the one modelled from the specification.
\<close>

theorem round_trip:
  assumes "state s = WAIT_START"
    and "length (buffer s) = MAX_MSG_LEN"
    and "unat len \<le> 511"
    and "unat len \<le> length payload"
    and "map snd inp = sendFrame checksum msgType payload len"
  shows "\<exists>s'. poll checksum s now inp = Inr s' \<and>
              dispatched s' = dispatched s @ [(msgType, take (unat len) payload)] \<and>
              state s' = WAIT_START"
proof -
  define body where "body = msgType # take (unat len) payload"
  have l: "length body = Suc (unat len)" using assms(4) by (simp add: body_def)
  have 1: "1 \<le> length body" "length body \<le> 512" using l assms(3) by simp_all
  have n: "(of_nat (length body) :: u16) = len + 1" by (simp add: l)
  have inp: "map snd inp =
           [0xAA, ucast (drop_bit 8 (of_nat (length body) :: u16)), ucast (of_nat (length body) :: u16)]
           @ body @ [checksum body]"
    unfolding n using assms(5)
    by (simp add: sendFrame_def buildFrame_def Let_def body_def FRAME_START_BYTE_def)
  from poll_frame_dispatch[where checksum = checksum, OF assms(1,2) 1 inp] show ?thesis
    using assms(1) by (auto simp: poll_WAIT_START body_def)
qed

theorem round_trip_witness:
  "\<exists>s'. poll sum8 SerialComms_init 0 (map (Pair 9) (sendButtonEvent sum8 2 True)) = Inr s' \<and>
        dispatched s' = [(MSG_BUTTON, [2, 1])] \<and> state s' = WAIT_START"
  using round_trip [where s = SerialComms_init and checksum = sum8 and now = 0
      and msgType = MSG_BUTTON and payload = "[2, 1]" and len = 2
      and inp = "map (Pair 9) (sendButtonEvent sum8 2 True)"]
  by (simp add: SerialComms_init_def MAX_MSG_LEN_def sendButtonEvent_def comp_def)

section \<open>Length bounds\<close>

text \<open>
  C4. After a start marker, a declared BODY\_LEN of 0 or above 512 is rejected when the low
  length byte is consumed: the decoder is back in \<^verbatim>\<open>WAIT_START\<close>, the body buffer has not
  been written, nothing has been dispatched and no callback has run. A valid frame that
  follows at once, in a later call of \<^verbatim>\<open>poll\<close> or in the same one, is dispatched.
\<close>

theorem length_bounds:
  assumes "state s = WAIT_START"
    and "length (buffer s) = MAX_MSG_LEN"
    and "(n :: u16) = 0 \<or> unat n > 512"
    and "map snd inp1 = [0xAA, ucast (drop_bit 8 n), ucast n]"
    and "1 \<le> length body" and "length body \<le> 512"
    and "map snd inp2 =
           [0xAA, ucast (drop_bit 8 (of_nat (length body) :: u16)), ucast (of_nat (length body) :: u16)]
           @ body @ [checksum body]"
  shows "\<exists>s1. poll checksum s now inp1 = Inr s1 \<and>
              state s1 = WAIT_START \<and> buffer s1 = buffer s \<and>
              dispatched s1 = dispatched s \<and> calls s1 = calls s \<and>
              (\<exists>s2. poll checksum s1 now2 inp2 = Inr s2 \<and>
                    dispatched s2 = dispatched s @ [(hd body, tl body)] \<and>
                    state s2 = WAIT_START) \<and>
              (\<exists>s2. poll checksum s now (inp1 @ inp2) = Inr s2 \<and>
                    dispatched s2 = dispatched s @ [(hd body, tl body)] \<and>
                    state s2 = WAIT_START)"
proof -
  define s1 where "s1 = s\<lparr>lastByteTime := fst (last inp1), bodyLen := n, state := WAIT_START\<rparr>"
  have p1: "poll_loop checksum s inp1 = Inr s1"
    unfolding s1_def by (rule poll_bad_length[OF assms(1,3,4)])
  have st1: "state s1 = WAIT_START" and b1: "length (buffer s1) = MAX_MSG_LEN"
    using assms(2) by (simp_all add: s1_def)
  from poll_frame_dispatch[where checksum = checksum, OF st1 b1 assms(5,6,7)]
  obtain s2 where p2: "poll_loop checksum s1 inp2 = Inr s2"
    and d2: "dispatched s2 = dispatched s1 @ [(hd body, tl body)]" and st2: "state s2 = WAIT_START"
    by blast
  have d2': "dispatched s2 = dispatched s @ [(hd body, tl body)]" using d2 by (simp add: s1_def)
  have a: "poll checksum s now inp1 = Inr s1" using p1 assms(1) by (simp add: poll_WAIT_START)
  have b: "poll checksum s1 now2 inp2 = Inr s2" using p2 st1 by (simp add: poll_WAIT_START)
  have c: "poll checksum s now (inp1 @ inp2) = Inr s2"
    using p1 p2 assms(1) by (simp add: poll_WAIT_START poll_loop_append)
  show ?thesis using a b c d2' st2 by (simp add: s1_def)
qed

theorem length_bounds_witness:
  "\<exists>s1. poll sum8 SerialComms_init 0 [(1, 0xAA), (2, 2), (3, 1)] = Inr s1 \<and>
        state s1 = WAIT_START \<and> buffer s1 = buffer SerialComms_init \<and>
        dispatched s1 = dispatched SerialComms_init \<and> calls s1 = calls SerialComms_init \<and>
        (\<exists>s2. poll sum8 s1 4 [(4, 0xAA), (5, 0), (6, 1), (7, 5), (8, 5)] = Inr s2 \<and>
              dispatched s2 = dispatched SerialComms_init @ [(5, [])] \<and> state s2 = WAIT_START) \<and>
        (\<exists>s2. poll sum8 SerialComms_init 0
                ([(1, 0xAA), (2, 2), (3, 1)] @ [(4, 0xAA), (5, 0), (6, 1), (7, 5), (8, 5)]) = Inr s2 \<and>
              dispatched s2 = dispatched SerialComms_init @ [(5, [])] \<and> state s2 = WAIT_START)"
  using length_bounds [where s = SerialComms_init and checksum = sum8 and now = 0 and ?now2.0 = 4
      and n = 513 and body = "[5]"
      and ?inp1.0 = "[(1, 0xAA), (2, 2), (3, 1)]"
      and ?inp2.0 = "[(4, 0xAA), (5, 0), (6, 1), (7, 5), (8, 5)]"]
  by (simp add: SerialComms_init_def sum8_def MAX_MSG_LEN_def)

section \<open>The checksum gate\<close>

text \<open>
  C2. At any point of any input sequence given to \<^verbatim>\<open>poll\<close>: when reading one more byte
  invokes \<^verbatim>\<open>processMessage\<close> or a callback, the decoder was in \<^verbatim>\<open>READ_CHECKSUM\<close>, the byte
  read equals the checksum computed over the buffered body, and the single message dispatched
  is that body. A frame whose checksum byte does not match dispatches nothing, calls no
  callback, leaves the connectivity flag as it was and returns the decoder to \<^verbatim>\<open>WAIT_START\<close>;
  a valid frame after it, in a later call of \<^verbatim>\<open>poll\<close> or in the same one, is dispatched.
\<close>

theorem checksum_gate:
  "(poll checksum sa nowa pre = Inr sb \<and> poll checksum sa nowa (pre @ [x]) = Inr sc \<and>
    (dispatched sc \<noteq> dispatched sb \<or> calls sc \<noteq> calls sb) \<longrightarrow>
      state sb = READ_CHECKSUM \<and>
      snd x = checksum (take (unat (bodyLen sb)) (buffer sb)) \<and>
      dispatched sc =
        dispatched sb @ [(buffer sb ! 0, take (unat (bodyLen sb - 1)) (drop 1 (buffer sb)))])
   \<and>
   (state s = WAIT_START \<and> length (buffer s) = MAX_MSG_LEN \<and>
    1 \<le> length body \<and> length body \<le> 512 \<and> c \<noteq> checksum body \<and>
    map snd inp1 =
      [0xAA, ucast (drop_bit 8 (of_nat (length body) :: u16)), ucast (of_nat (length body) :: u16)]
      @ body @ [c] \<and>
    1 \<le> length body2 \<and> length body2 \<le> 512 \<and>
    map snd inp2 =
      [0xAA, ucast (drop_bit 8 (of_nat (length body2) :: u16)), ucast (of_nat (length body2) :: u16)]
      @ body2 @ [checksum body2] \<longrightarrow>
      (\<exists>s1. poll checksum s now inp1 = Inr s1 \<and> state s1 = WAIT_START \<and>
            dispatched s1 = dispatched s \<and> calls s1 = calls s \<and>
            bridgeConnected s1 = bridgeConnected s \<and>
            (\<exists>s2. poll checksum s1 now2 inp2 = Inr s2 \<and>
                  dispatched s2 = dispatched s @ [(hd body2, tl body2)] \<and>
                  state s2 = WAIT_START) \<and>
            (\<exists>s2. poll checksum s now (inp1 @ inp2) = Inr s2 \<and>
                  dispatched s2 = dispatched s @ [(hd body2, tl body2)] \<and>
                  state s2 = WAIT_START)))"
proof (intro conjI impI)
  assume a: "poll checksum sa nowa pre = Inr sb \<and> poll checksum sa nowa (pre @ [x]) = Inr sc \<and>
    (dispatched sc \<noteq> dispatched sb \<or> calls sc \<noteq> calls sb)"
  then have step: "poll_byte checksum sb x = Inr sc" by (auto simp: poll_snoc)
  from poll_byte_gate[OF step] a
  show "state sb = READ_CHECKSUM"
    and "snd x = checksum (take (unat (bodyLen sb)) (buffer sb))"
    and "dispatched sc =
        dispatched sb @ [(buffer sb ! 0, take (unat (bodyLen sb - 1)) (drop 1 (buffer sb)))]"
    by blast+
next
  assume f: "state s = WAIT_START \<and> length (buffer s) = MAX_MSG_LEN \<and>
    1 \<le> length body \<and> length body \<le> 512 \<and> c \<noteq> checksum body \<and>
    map snd inp1 =
      [0xAA, ucast (drop_bit 8 (of_nat (length body) :: u16)), ucast (of_nat (length body) :: u16)]
      @ body @ [c] \<and>
    1 \<le> length body2 \<and> length body2 \<le> 512 \<and>
    map snd inp2 =
      [0xAA, ucast (drop_bit 8 (of_nat (length body2) :: u16)), ucast (of_nat (length body2) :: u16)]
      @ body2 @ [checksum body2]"
  define s1 where "s1 = (after_body s (fst (last inp1)) body)\<lparr>state := WAIT_START\<rparr>"
  have p1: "poll_loop checksum s inp1 = Inr s1"
    unfolding s1_def using f by (intro poll_frame_bad) simp_all
  have st1: "state s1 = WAIT_START" by (simp add: s1_def)
  have b1: "length (buffer s1) = MAX_MSG_LEN"
    using f by (simp add: s1_def after_body_def MAX_MSG_LEN_def)
  have f2: "1 \<le> length body2" "length body2 \<le> 512" "map snd inp2 =
      [0xAA, ucast (drop_bit 8 (of_nat (length body2) :: u16)), ucast (of_nat (length body2) :: u16)]
      @ body2 @ [checksum body2]" using f by simp_all
  from poll_frame_dispatch[where checksum = checksum, OF st1 b1 f2]
  obtain s2 where p2: "poll_loop checksum s1 inp2 = Inr s2"
    and d2: "dispatched s2 = dispatched s1 @ [(hd body2, tl body2)]" and st2: "state s2 = WAIT_START"
    by blast
  have d2': "dispatched s2 = dispatched s @ [(hd body2, tl body2)]" using d2 by (simp add: s1_def)
  have a: "poll checksum s now inp1 = Inr s1" using p1 f by (simp add: poll_WAIT_START)
  have b: "poll checksum s1 now2 inp2 = Inr s2" using p2 st1 by (simp add: poll_WAIT_START)
  have c: "poll checksum s now (inp1 @ inp2) = Inr s2"
    using p1 p2 f by (simp add: poll_WAIT_START poll_loop_append)
  show "\<exists>s1. poll checksum s now inp1 = Inr s1 \<and> state s1 = WAIT_START \<and>
            dispatched s1 = dispatched s \<and> calls s1 = calls s \<and>
            bridgeConnected s1 = bridgeConnected s \<and>
            (\<exists>s2. poll checksum s1 now2 inp2 = Inr s2 \<and>
                  dispatched s2 = dispatched s @ [(hd body2, tl body2)] \<and>
                  state s2 = WAIT_START) \<and>
            (\<exists>s2. poll checksum s now (inp1 @ inp2) = Inr s2 \<and>
                  dispatched s2 = dispatched s @ [(hd body2, tl body2)] \<and>
                  state s2 = WAIT_START)"
    using a b c d2' st2 by (simp add: s1_def)
qed


theorem checksum_gate_witness:
  "(\<exists>sb sc. poll sum8 SerialComms_init 0 [(1, 0xAA), (2, 0), (3, 2), (4, 7), (5, 1)] = Inr sb \<and>
       poll sum8 SerialComms_init 0 ([(1, 0xAA), (2, 0), (3, 2), (4, 7), (5, 1)] @ [(6, 8)]) = Inr sc \<and>
       dispatched sc \<noteq> dispatched sb \<and> state sb = READ_CHECKSUM \<and>
       snd (6 :: u32, 8 :: u8) = sum8 (take (unat (bodyLen sb)) (buffer sb)))
   \<and>
   (\<exists>s1. poll sum8 SerialComms_init 0 [(1, 0xAA), (2, 0), (3, 2), (4, 7), (5, 1), (6, 9)] = Inr s1 \<and>
       state s1 = WAIT_START \<and> dispatched s1 = [] \<and> calls s1 = [] \<and> \<not> bridgeConnected s1 \<and>
       (\<exists>s2. poll sum8 s1 10 [(10, 0xAA), (11, 0), (12, 1), (13, 5), (14, 5)] = Inr s2 \<and>
             dispatched s2 = [(5, [])] \<and> state s2 = WAIT_START))"
proof -
  obtain sb where sb: "poll sum8 SerialComms_init 0 [(1, 0xAA), (2, 0), (3, 2), (4, 7), (5, 1)] = Inr sb"
    by (simp add: poll_def poll_byte_def Let_def SerialComms_init_def FRAME_START_BYTE_def
        MAX_MSG_LEN_def word_le_nat_alt)
  obtain sc where sc: "poll sum8 SerialComms_init 0 ([(1, 0xAA), (2, 0), (3, 2), (4, 7), (5, 1)] @ [(6, 8)]) = Inr sc"
    and d: "dispatched sc = [(7, [1])]"
    using poll_frame_dispatch [where s = SerialComms_init and checksum = sum8
      and body = "[7, 1]" and inp = "[(1, 0xAA), (2, 0), (3, 2), (4, 7), (5, 1), (6, 8)]"]
    by (auto simp: SerialComms_init_def sum8_def MAX_MSG_LEN_def poll_WAIT_START)
  have db: "dispatched sb = []"
    using sb by (auto simp: poll_def poll_byte_def Let_def SerialComms_init_def FRAME_START_BYTE_def
        MAX_MSG_LEN_def word_le_nat_alt)
  have ne: "dispatched sc \<noteq> dispatched sb" using d db by simp
  have 1: "state sb = READ_CHECKSUM \<and> snd (6 :: u32, 8 :: u8) = sum8 (take (unat (bodyLen sb)) (buffer sb))"
    using checksum_gate [where checksum = sum8 and sa = SerialComms_init and nowa = 0
        and pre = "[(1, 0xAA), (2, 0), (3, 2), (4, 7), (5, 1)]" and x = "(6, 8)"
        and sb = sb and sc = sc] sb sc ne
    by blast
  have 2: "\<exists>s1. poll sum8 SerialComms_init 0 [(1, 0xAA), (2, 0), (3, 2), (4, 7), (5, 1), (6, 9)] = Inr s1 \<and>
       state s1 = WAIT_START \<and> dispatched s1 = [] \<and> calls s1 = [] \<and> \<not> bridgeConnected s1 \<and>
       (\<exists>s2. poll sum8 s1 10 [(10, 0xAA), (11, 0), (12, 1), (13, 5), (14, 5)] = Inr s2 \<and>
             dispatched s2 = [(5, [])] \<and> state s2 = WAIT_START)"
    using checksum_gate [where checksum = sum8 and s = SerialComms_init and now = 0
        and ?now2.0 = 10 and body = "[7, 1]" and c = 9 and ?body2.0 = "[5]"
        and ?inp1.0 = "[(1, 0xAA), (2, 0), (3, 2), (4, 7), (5, 1), (6, 9)]"
        and ?inp2.0 = "[(10, 0xAA), (11, 0), (12, 1), (13, 5), (14, 5)]", THEN conjunct2]
    by (auto simp: SerialComms_init_def sum8_def MAX_MSG_LEN_def)
  show ?thesis using sb sc ne 1 2 by blast
qed

section \<open>Timeout resynchronisation\<close>

text \<open>
  C7. Time is the millisecond counter \<^verbatim>\<open>millis()\<close>, and the time elapsed since the last
  byte is the unsigned 32-bit difference \<open>now - lastByteTime\<close>. If the decoder is not in
  \<^verbatim>\<open>WAIT_START\<close> and that difference exceeds 500, a call of \<^verbatim>\<open>poll\<close> resets the state to
  \<^verbatim>\<open>WAIT_START\<close>; a complete valid frame read by that call, or by a later one, is then
  dispatched from the start, whatever partial frame was held. Every byte read sets
  \<open>lastByteTime\<close> to the clock value read for it.
\<close>

theorem timeout_resync:
  "(state s \<noteq> WAIT_START \<and> now - lastByteTime s > 500 \<longrightarrow>
      poll checksum s now [] = Inr (s\<lparr>state := WAIT_START\<rparr>) \<and>
      (length (buffer s) = MAX_MSG_LEN \<and> 1 \<le> length body \<and> length body \<le> 512 \<and>
       map snd inp =
         [0xAA, ucast (drop_bit 8 (of_nat (length body) :: u16)), ucast (of_nat (length body) :: u16)]
         @ body @ [checksum body] \<longrightarrow>
       (\<exists>s'. poll checksum s now inp = Inr s' \<and>
             dispatched s' = dispatched s @ [(hd body, tl body)] \<and>
             state s' = WAIT_START) \<and>
       (\<exists>s'. poll checksum (s\<lparr>state := WAIT_START\<rparr>) now2 inp = Inr s' \<and>
             dispatched s' = dispatched s @ [(hd body, tl body)] \<and>
             state s' = WAIT_START)))
   \<and>
   (poll checksum sa nowa (pre @ [x]) = Inr sb \<longrightarrow> lastByteTime sb = fst x)"
proof (intro conjI impI)
  assume t: "state s \<noteq> WAIT_START \<and> now - lastByteTime s > 500"
  then show "poll checksum s now [] = Inr (s\<lparr>state := WAIT_START\<rparr>)"
    by (simp add: poll_timeout)
next
  assume t: "state s \<noteq> WAIT_START \<and> now - lastByteTime s > 500"
  assume f: "length (buffer s) = MAX_MSG_LEN \<and> 1 \<le> length body \<and> length body \<le> 512 \<and>
       map snd inp =
         [0xAA, ucast (drop_bit 8 (of_nat (length body) :: u16)), ucast (of_nat (length body) :: u16)]
         @ body @ [checksum body]"
  have st: "state (s\<lparr>state := WAIT_START\<rparr>) = WAIT_START"
    and b: "length (buffer (s\<lparr>state := WAIT_START\<rparr>)) = MAX_MSG_LEN"
    using f by simp_all
  have f2: "1 \<le> length body" "length body \<le> 512" "map snd inp =
         [0xAA, ucast (drop_bit 8 (of_nat (length body) :: u16)), ucast (of_nat (length body) :: u16)]
         @ body @ [checksum body]"
    using f by simp_all
  from poll_frame_dispatch[where checksum = checksum, OF st b f2]
  obtain s' where p: "poll_loop checksum (s\<lparr>state := WAIT_START\<rparr>) inp = Inr s'"
    and d: "dispatched s' = dispatched s @ [(hd body, tl body)]" and st': "state s' = WAIT_START"
    by auto
  show "\<exists>s'. poll checksum s now inp = Inr s' \<and>
             dispatched s' = dispatched s @ [(hd body, tl body)] \<and> state s' = WAIT_START"
    using t p d st' by (simp add: poll_timeout)
  show "\<exists>s'. poll checksum (s\<lparr>state := WAIT_START\<rparr>) now2 inp = Inr s' \<and>
             dispatched s' = dispatched s @ [(hd body, tl body)] \<and> state s' = WAIT_START"
    using p d st' by (simp add: poll_WAIT_START)
next
  assume "poll checksum sa nowa (pre @ [x]) = Inr sb"
  then show "lastByteTime sb = fst x"
    by (auto simp: poll_snoc split: sum.splits dest: poll_byte_lastByteTime)
qed

theorem timeout_resync_witness:
  "poll sum8 SerialComms_init 0 [(1, 0xAA), (2, 0), (3, 3)] =
     Inr (SerialComms_init\<lparr>lastByteTime := 3, bodyLen := 3, bodyIdx := 0, state := READ_BODY\<rparr>) \<and>
   poll sum8 (SerialComms_init\<lparr>lastByteTime := 3, bodyLen := 3, bodyIdx := 0, state := READ_BODY\<rparr>)
     504 [] =
     Inr (SerialComms_init\<lparr>lastByteTime := 3, bodyLen := 3, bodyIdx := 0, state := WAIT_START\<rparr>) \<and>
   (\<exists>s'. poll sum8
           (SerialComms_init\<lparr>lastByteTime := 3, bodyLen := 3, bodyIdx := 0, state := READ_BODY\<rparr>)
           504 [(504, 0xAA), (505, 0), (506, 1), (507, 5), (508, 5)] = Inr s' \<and>
         dispatched s' = [(5, [])] \<and> state s' = WAIT_START \<and> lastByteTime s' = 508)"
proof -
  let ?s = "SerialComms_init\<lparr>lastByteTime := 3, bodyLen := 3, bodyIdx := 0, state := READ_BODY\<rparr>"
  let ?inp = "[(504 :: u32, 0xAA :: u8), (505, 0), (506, 1), (507, 5), (508, 5)]"
  have 0: "poll sum8 SerialComms_init 0 [(1, 0xAA), (2, 0), (3, 3)] = Inr ?s"
    by (simp add: poll_def poll_byte_def Let_def SerialComms_init_def FRAME_START_BYTE_def
        MAX_MSG_LEN_def)
  note th = timeout_resync [where checksum = sum8 and s = ?s and now = 504 and body = "[5]"
      and inp = ?inp and sa = ?s and nowa = 504 and pre = "butlast ?inp" and x = "last ?inp"]
  have hyp: "state ?s \<noteq> WAIT_START \<and> 504 - lastByteTime ?s > 500"
    by (simp add: SerialComms_init_def)
  have 1: "poll sum8 ?s 504 [] = Inr (?s\<lparr>state := WAIT_START\<rparr>)"
    using th hyp by blast
  have f: "length (buffer ?s) = MAX_MSG_LEN \<and> 1 \<le> length [5 :: u8] \<and> length [5 :: u8] \<le> 512 \<and>
       map snd ?inp =
         [0xAA, ucast (drop_bit 8 (of_nat (length [5 :: u8]) :: u16)), ucast (of_nat (length [5 :: u8]) :: u16)]
         @ [5] @ [sum8 [5]]"
    by (simp add: SerialComms_init_def sum8_def MAX_MSG_LEN_def)
  obtain s' where 2: "poll sum8 ?s 504 ?inp = Inr s'" and 3: "dispatched s' = dispatched ?s @ [(hd [5], tl [5])]"
    and 4: "state s' = WAIT_START"
    using th hyp f by blast
  have 5: "lastByteTime s' = 508" using th 2 by simp
  show ?thesis using 0 1 2 3 4 5 by (simp add: SerialComms_init_def)
qed

section \<open>Unknown message types\<close>

text \<open>
  C8. For a type byte that is none of the seven defined message types, \<^verbatim>\<open>processMessage\<close>
  sets the connectivity flag, calls no callback and changes nothing else; a checksum-verified
  frame with such a type is accepted by \<^verbatim>\<open>poll\<close> without a fault, dispatched, and no
  callback runs.
\<close>

theorem unknown_type:
  "msgType \<notin> {MSG_DISPLAY_TEXT, MSG_BUTTON, MSG_SET_LEDS, MSG_STATUS, MSG_CLEAR,
                MSG_SET_LABELS, MSG_HEARTBEAT} \<longrightarrow>
     processMessage s msgType payload len =
       s\<lparr>bridgeConnected := True,
         dispatched := dispatched s @ [(msgType, take (unat len) payload)]\<rparr> \<and>
     (state s = WAIT_START \<and> length (buffer s) = MAX_MSG_LEN \<and>
      1 \<le> length body \<and> length body \<le> 512 \<and> hd body = msgType \<and>
      map snd inp =
        [0xAA, ucast (drop_bit 8 (of_nat (length body) :: u16)), ucast (of_nat (length body) :: u16)]
        @ body @ [checksum body] \<longrightarrow>
      (\<exists>s'. poll checksum s now inp = Inr s' \<and> calls s' = calls s \<and>
            dispatched s' = dispatched s @ [(msgType, tl body)] \<and>
            state s' = WAIT_START))"
proof (intro impI conjI)
  assume m: "msgType \<notin> {MSG_DISPLAY_TEXT, MSG_BUTTON, MSG_SET_LEDS, MSG_STATUS, MSG_CLEAR,
                MSG_SET_LABELS, MSG_HEARTBEAT}"
  then show "processMessage s msgType payload len =
       s\<lparr>bridgeConnected := True,
         dispatched := dispatched s @ [(msgType, take (unat len) payload)]\<rparr>"
    by (simp add: processMessage_other)
next
  assume m: "msgType \<notin> {MSG_DISPLAY_TEXT, MSG_BUTTON, MSG_SET_LEDS, MSG_STATUS, MSG_CLEAR,
                MSG_SET_LABELS, MSG_HEARTBEAT}"
  assume f: "state s = WAIT_START \<and> length (buffer s) = MAX_MSG_LEN \<and>
      1 \<le> length body \<and> length body \<le> 512 \<and> hd body = msgType \<and>
      map snd inp =
        [0xAA, ucast (drop_bit 8 (of_nat (length body) :: u16)), ucast (of_nat (length body) :: u16)]
        @ body @ [checksum body]"
  then have ok: "poll_loop checksum s inp =
     Inr ((processMessage (after_body s (fst (last inp)) body) (hd body)
                  (tl body @ drop (length body) (buffer s)) (of_nat (length body) - 1))\<lparr>state := WAIT_START\<rparr>)"
    by (intro poll_frame_ok) simp_all
  have c: "calls (processMessage (after_body s (fst (last inp)) body) msgType
                  (tl body @ drop (length body) (buffer s)) (of_nat (length body) - 1)) = calls s"
    using m by (simp add: processMessage_calls_other)
  show "\<exists>s'. poll checksum s now inp = Inr s' \<and> calls s' = calls s \<and>
            dispatched s' = dispatched s @ [(msgType, tl body)] \<and>
            state s' = WAIT_START"
    using ok c f take_payload[of body] by (simp add: poll_WAIT_START)
qed

theorem unknown_type_witness:
  "processMessage SerialComms_init 0x42 [1, 2] 2 =
     SerialComms_init\<lparr>bridgeConnected := True,
       dispatched := dispatched SerialComms_init @ [(0x42, take (unat (2 :: u16)) [1, 2])]\<rparr> \<and>
   (\<exists>s'. poll sum8 SerialComms_init 0
            [(1, 0xAA), (2, 0), (3, 3), (4, 0x42), (5, 1), (6, 2), (7, 0x45)] = Inr s' \<and>
         calls s' = calls SerialComms_init \<and>
         dispatched s' = dispatched SerialComms_init @ [(0x42, tl [0x42, 1, 2])] \<and>
         state s' = WAIT_START)"
  using unknown_type [where s = SerialComms_init and checksum = sum8 and now = 0
      and msgType = "0x42" and payload = "[1, 2]" and len = 2 and body = "[0x42, 1, 2]"
      and inp = "[(1, 0xAA), (2, 0), (3, 3), (4, 0x42), (5, 1), (6, 2), (7, 0x45)]"]
  by (simp add: msg_defs SerialComms_init_def sum8_def MAX_MSG_LEN_def)

section \<open>Empty payloads\<close>

text \<open>
  C10. A checksum-verified frame sets the connectivity flag. With BODY\_LEN = 1 (an empty
  payload) and type DISPLAY\_TEXT, STATUS, SET\_LEDS or SET\_LABELS no callback runs, whatever
  callbacks are registered. A CLEAR frame runs the clear callback whenever one is registered,
  whatever the payload length.
\<close>

theorem empty_payload:
  assumes "state s = WAIT_START"
    and "length (buffer s) = MAX_MSG_LEN"
    and "1 \<le> length body" and "length body \<le> 512"
    and "map snd inp =
           [0xAA, ucast (drop_bit 8 (of_nat (length body) :: u16)), ucast (of_nat (length body) :: u16)]
           @ body @ [checksum body]"
  shows "\<exists>s'. poll checksum s now inp = Inr s' \<and> bridgeConnected s' \<and>
           dispatched s' = dispatched s @ [(hd body, tl body)] \<and>
           (length body = 1 \<and>
            hd body \<in> {MSG_DISPLAY_TEXT, MSG_STATUS, MSG_SET_LEDS, MSG_SET_LABELS} \<longrightarrow>
              calls s' = calls s) \<and>
           (hd body = MSG_CLEAR \<and> onClearDisplay s \<longrightarrow>
              calls s' = calls s @ [ClearDisplayCall]) \<and>
           (hd body = MSG_CLEAR \<and> \<not> onClearDisplay s \<longrightarrow> calls s' = calls s)"
proof -
  define s' where "s' = (processMessage (after_body s (fst (last inp)) body) (hd body)
                  (tl body @ drop (length body) (buffer s)) (of_nat (length body) - 1))\<lparr>state := WAIT_START\<rparr>"
  have ok: "poll checksum s now inp = Inr s'"
    unfolding s'_def using poll_frame_ok[where checksum = checksum, OF assms] assms(1)
    by (simp add: poll_WAIT_START)
  have 1: "bridgeConnected s'" by (simp add: s'_def)
  have 2: "dispatched s' = dispatched s @ [(hd body, tl body)]"
    using take_payload[OF assms(3,4)] by (simp add: s'_def)
  have 3: "calls s' = calls s"
    if "length body = 1 \<and> hd body \<in> {MSG_DISPLAY_TEXT, MSG_STATUS, MSG_SET_LEDS, MSG_SET_LABELS}"
  proof -
    have "hd body \<noteq> MSG_CLEAR" using that by (auto simp: msg_defs)
    then show ?thesis using that by (simp add: s'_def processMessage_calls_empty)
  qed
  have 4: "calls s' = calls s @ [ClearDisplayCall]" if "hd body = MSG_CLEAR \<and> onClearDisplay s"
    using that by (simp add: s'_def processMessage_calls_clear)
  have 5: "calls s' = calls s" if "hd body = MSG_CLEAR \<and> \<not> onClearDisplay s"
    using that by (simp add: s'_def processMessage_calls_clear)
  show ?thesis using ok 1 2 3 4 5 by blast
qed

theorem empty_payload_witness:
  "(\<exists>s'. poll sum8 (SerialComms_init\<lparr>onSetLeds := True, onClearDisplay := True\<rparr>) 0
            [(1, 0xAA), (2, 0), (3, 1), (4, 3), (5, 3)] = Inr s' \<and>
         bridgeConnected s' \<and> calls s' = [])
   \<and> (\<exists>s'. poll sum8 (SerialComms_init\<lparr>onSetLeds := True, onClearDisplay := True\<rparr>) 0
            [(1, 0xAA), (2, 0), (3, 2), (4, 5), (5, 9), (6, 14)] = Inr s' \<and>
         bridgeConnected s' \<and> calls s' = [ClearDisplayCall])"
  using empty_payload [where s = "SerialComms_init\<lparr>onSetLeds := True, onClearDisplay := True\<rparr>"
      and checksum = sum8 and now = 0 and body = "[3]"
      and inp = "[(1, 0xAA), (2, 0), (3, 1), (4, 3), (5, 3)]"]
    empty_payload [where s = "SerialComms_init\<lparr>onSetLeds := True, onClearDisplay := True\<rparr>"
      and checksum = sum8 and now = 0 and body = "[5, 9]"
      and inp = "[(1, 0xAA), (2, 0), (3, 2), (4, 5), (5, 9), (6, 14)]"]
  by (auto simp: msg_defs SerialComms_init_def sum8_def MAX_MSG_LEN_def)

section \<open>Decoding the labels\<close>

text \<open>
  C5. For every \<^verbatim>\<open>MSG_SET_LABELS\<close> payload (non-empty, with a labels callback registered)
  \<^verbatim>\<open>processMessage\<close> calls the labels callback once with four C strings: the records
  LEN(1) | TEXT(LEN) decoded left to right as the specification words it (\<open>labels_spec\<close>:
  each text cut to 31 bytes, the scan ending without any error at the first record whose
  declared length would read past the payload end or after 4 records, the remaining entries
  empty), each read as a C string, that is up to its first NUL byte. There are always four
  strings and none is longer than 31; when no text holds a NUL byte the strings are the
  texts themselves. In particular, when the third record declares more
  bytes than remain, the callback receives the first two texts and two empty strings.
\<close>

theorem label_decoding:
  "(shape_ok s \<and> onSetLabels s \<and> 0 < len \<and> unat len \<le> length payload \<longrightarrow>
      calls (processMessage s MSG_SET_LABELS payload len) =
        calls s @ [SetLabelsCall (map cstr (labels_spec (take (unat len) payload)))] \<and>
      length (map cstr (labels_spec (take (unat len) payload))) = 4 \<and>
      (\<forall>t\<in>set (map cstr (labels_spec (take (unat len) payload))). length t \<le> 31) \<and>
      ((\<forall>t\<in>set (labels_spec (take (unat len) payload)). 0 \<notin> set t) \<longrightarrow>
         calls (processMessage s MSG_SET_LABELS payload len) =
           calls s @ [SetLabelsCall (labels_spec (take (unat len) payload))]))
   \<and>
   (shape_ok s \<and> onSetLabels s \<and> unat len \<le> length payload \<and>
    take (unat len) payload = l1 # t1 @ l2 # t2 @ l3 # rest \<and>
    length t1 = unat l1 \<and> length t2 = unat l2 \<and> length rest < unat l3 \<longrightarrow>
      calls (processMessage s MSG_SET_LABELS payload len) =
        calls s @ [SetLabelsCall [cstr (take 31 t1), cstr (take 31 t2), [], []]])"
proof (intro conjI impI)
  assume a: "shape_ok s \<and> onSetLabels s \<and> 0 < len \<and> unat len \<le> length payload"
  then show "calls (processMessage s MSG_SET_LABELS payload len) =
        calls s @ [SetLabelsCall (map cstr (labels_spec (take (unat len) payload)))]"
    by (intro processMessage_labels) simp_all
  show "length (map cstr (labels_spec (take (unat len) payload))) = 4"
    by (simp add: labels_spec_length)
  show "\<forall>t\<in>set (map cstr (labels_spec (take (unat len) payload))). length t \<le> 31"
    by (rule labels_spec_short)
  show "calls (processMessage s MSG_SET_LABELS payload len) =
           calls s @ [SetLabelsCall (labels_spec (take (unat len) payload))]"
    if n: "\<forall>t\<in>set (labels_spec (take (unat len) payload)). 0 \<notin> set t"
  proof -
    have "map cstr (labels_spec (take (unat len) payload)) = labels_spec (take (unat len) payload)"
      using n by (intro map_idI) (simp add: cstr_no_nul)
    then show ?thesis using a by (simp add: processMessage_labels)
  qed
next
  assume a: "shape_ok s \<and> onSetLabels s \<and> unat len \<le> length payload \<and>
    take (unat len) payload = l1 # t1 @ l2 # t2 @ l3 # rest \<and>
    length t1 = unat l1 \<and> length t2 = unat l2 \<and> length rest < unat l3"
  then have "take (unat len) payload \<noteq> []" by simp
  then have "unat len \<noteq> 0" by auto
  then have pos: "0 < len" by (simp add: word_less_nat_alt)
  have "calls (processMessage s MSG_SET_LABELS payload len) =
        calls s @ [SetLabelsCall (map cstr (labels_spec (take (unat len) payload)))]"
    using a pos by (intro processMessage_labels) simp_all
  moreover have "labels_spec (take (unat len) payload) = [take 31 t1, take 31 t2, [], []]"
    using a labels_spec_third_over[of t1 l1 t2 l2 rest l3] by simp
  ultimately show "calls (processMessage s MSG_SET_LABELS payload len) =
        calls s @ [SetLabelsCall [cstr (take 31 t1), cstr (take 31 t2), [], []]]"
    by simp
qed

theorem label_decoding_witness:
  "calls (processMessage (SerialComms_init\<lparr>onSetLabels := True\<rparr>) MSG_SET_LABELS
            [2, 65, 66, 1, 67, 9, 68] 7) =
     [SetLabelsCall [[65, 66], [67], [], []]] \<and>
   calls (processMessage (SerialComms_init\<lparr>onSetLabels := True\<rparr>) MSG_SET_LABELS
            [2, 65, 66, 1, 67, 9, 68] 7) =
     [SetLabelsCall (map cstr (labels_spec [2, 65, 66, 1, 67, 9, 68]))]"
proof -
  let ?s = "SerialComms_init\<lparr>onSetLabels := True\<rparr>"
  let ?p = "[2, 65, 66, 1, 67, 9, 68] :: u8 list"
  note th = label_decoding [where s = ?s and payload = ?p and len = 7
      and ?l1.0 = 2 and ?t1.0 = "[65, 66]" and ?l2.0 = 1 and ?t2.0 = "[67]" and ?l3.0 = 9
      and rest = "[68]"]
  have sh: "shape_ok ?s"
    by (simp add: shape_ok_def SerialComms_init_def MAX_MSG_LEN_def list_all_iff)
  have on: "onSetLabels ?s" by simp
  have c: "calls ?s = []" by (simp add: SerialComms_init_def)
  have 1: "calls (processMessage ?s MSG_SET_LABELS ?p 7) =
        calls ?s @ [SetLabelsCall (map cstr (labels_spec (take (unat (7 :: u16)) ?p)))]"
    using th[THEN conjunct1] sh on by simp
  have 2: "calls (processMessage ?s MSG_SET_LABELS ?p 7) =
        calls ?s @ [SetLabelsCall [cstr (take 31 [65, 66]), cstr (take 31 [67]), [], []]]"
    using th[THEN conjunct2] sh on by simp
  show ?thesis using 1 2 c by (simp add: cstr_def)
qed

section \<open>The connectivity flag\<close>

text \<open>
  C6. \<open>bridgeConnected\<close> is false in the initial object and, after any sequence of
  operations on it, is true exactly when \<^verbatim>\<open>processMessage\<close> has been invoked at least
  once; \<^verbatim>\<open>processMessage\<close> sets it for every type byte, so a checksum-verified frame of any
  type sets it; and no operation of the class sets it back to false.
\<close>

theorem liveness_flag:
  "\<not> bridgeConnected SerialComms_init \<and>
   (run checksum SerialComms_init ops = Inr s \<longrightarrow>
      (bridgeConnected s \<longleftrightarrow> dispatched s \<noteq> [])) \<and>
   bridgeConnected (processMessage sa msgType payload len) \<and>
   (state sf = WAIT_START \<and> length (buffer sf) = MAX_MSG_LEN \<and>
    1 \<le> length body \<and> length body \<le> 512 \<and>
    map snd inp =
      [0xAA, ucast (drop_bit 8 (of_nat (length body) :: u16)), ucast (of_nat (length body) :: u16)]
      @ body @ [checksum body] \<longrightarrow>
      (\<exists>s'. poll checksum sf now inp = Inr s' \<and> bridgeConnected s')) \<and>
   (bridgeConnected sb \<and> run checksum sb ops2 = Inr sc \<longrightarrow> bridgeConnected sc)"
proof (intro conjI impI)
  show "\<not> bridgeConnected SerialComms_init" by (simp add: SerialComms_init_def)
next
  assume "run checksum SerialComms_init ops = Inr s"
  from run_conn[OF this] show "bridgeConnected s \<longleftrightarrow> dispatched s \<noteq> []"
    by (auto simp: SerialComms_init_def)
next
  show "bridgeConnected (processMessage sa msgType payload len)" by simp
next
  assume f: "state sf = WAIT_START \<and> length (buffer sf) = MAX_MSG_LEN \<and>
    1 \<le> length body \<and> length body \<le> 512 \<and>
    map snd inp =
      [0xAA, ucast (drop_bit 8 (of_nat (length body) :: u16)), ucast (of_nat (length body) :: u16)]
      @ body @ [checksum body]"
  then have "\<exists>s'. poll_loop checksum sf inp = Inr s' \<and>
              dispatched s' = dispatched sf @ [(hd body, tl body)] \<and>
              state s' = WAIT_START \<and> bridgeConnected s' \<and> length (buffer s') = MAX_MSG_LEN"
    by (intro poll_frame_dispatch) simp_all
  then show "\<exists>s'. poll checksum sf now inp = Inr s' \<and> bridgeConnected s'"
    using f by (auto simp: poll_WAIT_START)
next
  assume "bridgeConnected sb \<and> run checksum sb ops2 = Inr sc"
  then show "bridgeConnected sc" using run_conn[of checksum sb ops2 sc] by auto
qed

theorem liveness_flag_witness:
  "\<not> bridgeConnected SerialComms_init \<and>
   (\<exists>s. run sum8 SerialComms_init
           [Begin, Poll 0 [(1, 0xAA), (2, 0), (3, 2), (4, 0x42), (5, 1), (6, 0x43)]] = Inr s \<and>
        bridgeConnected s \<and> dispatched s \<noteq> []) \<and>
   bridgeConnected (processMessage SerialComms_init 0x42 [] 0) \<and>
   (\<exists>s'. poll sum8 SerialComms_init 0
            [(1, 0xAA), (2, 0), (3, 2), (4, 0x42), (5, 1), (6, 0x43)] = Inr s' \<and>
         bridgeConnected s') \<and>
   (\<exists>sc. run sum8 (SerialComms_init\<lparr>bridgeConnected := True\<rparr>) [Poll 7 [(8, 0xAA), (9, 3)]] = Inr sc \<and>
         bridgeConnected sc)"
proof -
  let ?inp = "[(1 :: u32, 0xAA :: u8), (2, 0), (3, 2), (4, 0x42), (5, 1), (6, 0x43)]"
  let ?ops = "[Begin, Poll 0 ?inp]"
  let ?sb = "SerialComms_init\<lparr>bridgeConnected := True\<rparr>"
  let ?ops2 = "[Poll 7 [(8 :: u32, 0xAA :: u8), (9, 3)]]"
  have "decoder_inv ?sb"
    using decoder_inv_init by (simp add: decoder_inv_def shape_ok_def)
  from run_inv[OF this, of sum8 ?ops2] obtain sc where sc: "run sum8 ?sb ?ops2 = Inr sc" by blast
  obtain s where r: "run sum8 SerialComms_init ?ops = Inr s" and d: "dispatched s \<noteq> []"
    using poll_frame_dispatch [where s = SerialComms_init and checksum = sum8
      and body = "[0x42, 1]" and inp = ?inp]
    by (auto simp: SerialComms_init_def sum8_def MAX_MSG_LEN_def poll_WAIT_START begin'_def)
  note th = liveness_flag [where checksum = sum8 and ops = ?ops and s = s
      and sa = SerialComms_init and msgType = "0x42" and payload = "[]" and len = 0
      and sf = SerialComms_init and body = "[0x42, 1]" and inp = ?inp and now = 0
      and sb = ?sb and ?ops2.0 = ?ops2 and sc = sc]
  have 1: "\<not> bridgeConnected SerialComms_init" using th by blast
  have 2: "bridgeConnected s" using th r d by blast
  have 3: "bridgeConnected (processMessage SerialComms_init 0x42 [] 0)" using th by blast
  have f: "state SerialComms_init = WAIT_START \<and> length (buffer SerialComms_init) = MAX_MSG_LEN \<and>
    1 \<le> length [0x42 :: u8, 1] \<and> length [0x42 :: u8, 1] \<le> 512 \<and>
    map snd ?inp =
      [0xAA, ucast (drop_bit 8 (of_nat (length [0x42 :: u8, 1]) :: u16)),
       ucast (of_nat (length [0x42 :: u8, 1]) :: u16)] @ [0x42, 1] @ [sum8 [0x42, 1]]"
    by (simp add: SerialComms_init_def sum8_def MAX_MSG_LEN_def)
  have 4: "\<exists>s'. poll sum8 SerialComms_init 0 ?inp = Inr s' \<and> bridgeConnected s'"
    using th f by blast
  have 5: "bridgeConnected sc" using th sc by simp
  show ?thesis using 1 2 3 4 5 r d sc by blast
qed

section \<open>Writes to the body buffer\<close>

text \<open>
  C9. After any sequence of operations on the initial object, hence at any point of any
  input sequence (the state in the middle of a \<^verbatim>\<open>poll\<close> is the state after a \<^verbatim>\<open>poll\<close> on
  the bytes read so far), the buffer has its 512 bytes; in \<^verbatim>\<open>READ_BODY\<close> the index
  \<open>bodyIdx\<close> of the next store is below \<open>bodyLen\<close>, which lies between 1 and 512; reading one
  more byte is never an out-of-bounds access, and in \<^verbatim>\<open>READ_BODY\<close> it stores the byte at
  \<open>bodyIdx\<close>. Whenever a byte takes the decoder from another state into \<^verbatim>\<open>READ_BODY\<close>,
  \<open>bodyLen\<close> is between 1 and 512 and \<open>bodyIdx\<close> is 0.
\<close>

theorem buffer_write_safety:
  "(\<exists>s. run checksum SerialComms_init ops = Inr s \<and>
        length (buffer s) = 512 \<and>
        (state s = READ_BODY \<longrightarrow>
           1 \<le> unat (bodyLen s) \<and> unat (bodyLen s) \<le> 512 \<and>
           unat (bodyIdx s) < unat (bodyLen s)) \<and>
        (\<exists>s'. poll_byte checksum s x = Inr s' \<and> length (buffer s') = 512 \<and>
              (state s = READ_BODY \<longrightarrow> buffer s' = (buffer s)[unat (bodyIdx s) := snd x])))
   \<and>
   (poll_byte checksum sa y = Inr sb \<and> state sa \<noteq> READ_BODY \<and> state sb = READ_BODY \<longrightarrow>
      1 \<le> unat (bodyLen sb) \<and> unat (bodyLen sb) \<le> 512 \<and> bodyIdx sb = 0)"
proof (intro conjI impI)
  from run_inv[OF decoder_inv_init, of checksum ops]
  obtain s where r: "run checksum SerialComms_init ops = Inr s" and i: "decoder_inv s" by blast
  from poll_byte_inv[OF i, of checksum x]
  obtain s' where p: "poll_byte checksum s x = Inr s'" and i': "decoder_inv s'" by blast
  have b: "length (buffer s) = 512" "length (buffer s') = 512"
    using i i' by (simp_all add: decoder_inv_def shape_ok_def MAX_MSG_LEN_def)
  have body: "state s = READ_BODY \<longrightarrow>
           1 \<le> unat (bodyLen s) \<and> unat (bodyLen s) \<le> 512 \<and>
           unat (bodyIdx s) < unat (bodyLen s)"
    using i by (simp add: decoder_inv_def MAX_MSG_LEN_def)
  have w: "state s = READ_BODY \<longrightarrow> buffer s' = (buffer s)[unat (bodyIdx s) := snd x]"
    using p by (auto simp: poll_byte_def Let_def split: if_splits)
  show "\<exists>s. run checksum SerialComms_init ops = Inr s \<and>
        length (buffer s) = 512 \<and>
        (state s = READ_BODY \<longrightarrow>
           1 \<le> unat (bodyLen s) \<and> unat (bodyLen s) \<le> 512 \<and>
           unat (bodyIdx s) < unat (bodyLen s)) \<and>
        (\<exists>s'. poll_byte checksum s x = Inr s' \<and> length (buffer s') = 512 \<and>
              (state s = READ_BODY \<longrightarrow> buffer s' = (buffer s)[unat (bodyIdx s) := snd x]))"
    using r b body p w by blast
next
  assume "poll_byte checksum sa y = Inr sb \<and> state sa \<noteq> READ_BODY \<and> state sb = READ_BODY"
  then have "1 \<le> unat (bodyLen sb) \<and> unat (bodyLen sb) \<le> 512 \<and> bodyIdx sb = 0"
    by (intro poll_byte_enter_body[of checksum sa y sb]) simp_all
  then show "1 \<le> unat (bodyLen sb)" "unat (bodyLen sb) \<le> 512" "bodyIdx sb = 0" by simp_all
qed

theorem buffer_write_safety_witness:
  "(\<exists>s. run sum8 SerialComms_init [Poll 0 [(1, 0xAA), (2, 0), (3, 2), (4, 7)]] = Inr s \<and>
        state s = READ_BODY \<and> length (buffer s) = 512 \<and>
        unat (bodyIdx s) < unat (bodyLen s) \<and> unat (bodyLen s) \<le> 512 \<and>
        (\<exists>s'. poll_byte sum8 s (5, 9) = Inr s' \<and> buffer s' = (buffer s)[unat (bodyIdx s) := 9]))
   \<and>
   (\<exists>sb. poll_byte sum8 (SerialComms_init\<lparr>state := READ_LEN_LO\<rparr>) (3, 2) = Inr sb \<and>
         state sb = READ_BODY \<and> 1 \<le> unat (bodyLen sb) \<and> unat (bodyLen sb) \<le> 512 \<and>
         bodyIdx sb = 0)"
proof -
  let ?ops = "[Poll 0 [(1 :: u32, 0xAA :: u8), (2, 0), (3, 2), (4, 7)]]"
  let ?sa = "SerialComms_init\<lparr>state := READ_LEN_LO\<rparr>"
  have e: "\<exists>s0. run sum8 SerialComms_init ?ops = Inr s0 \<and> state s0 = READ_BODY"
    by (simp add: poll_def poll_byte_def Let_def SerialComms_init_def FRAME_START_BYTE_def
        MAX_MSG_LEN_def word_le_nat_alt)
  obtain sb where sb: "poll_byte sum8 ?sa (3, 2) = Inr sb" and stb: "state sb = READ_BODY"
    by (simp add: poll_byte_def Let_def SerialComms_init_def MAX_MSG_LEN_def)
  note th = buffer_write_safety [where checksum = sum8 and ops = ?ops and x = "(5, 9)"
      and sa = ?sa and y = "(3, 2)" and sb = sb]
  from th obtain s where r: "run sum8 SerialComms_init ?ops = Inr s"
    and b: "length (buffer s) = 512"
    and i: "state s = READ_BODY \<longrightarrow>
           1 \<le> unat (bodyLen s) \<and> unat (bodyLen s) \<le> 512 \<and>
           unat (bodyIdx s) < unat (bodyLen s)"
    and w: "\<exists>s'. poll_byte sum8 s (5, 9) = Inr s' \<and> length (buffer s') = 512 \<and>
              (state s = READ_BODY \<longrightarrow> buffer s' = (buffer s)[unat (bodyIdx s) := snd (5 :: u32, 9 :: u8)])"
    by blast
  have st: "state s = READ_BODY" using e r by auto
  have 1: "\<exists>s. run sum8 SerialComms_init ?ops = Inr s \<and>
        state s = READ_BODY \<and> length (buffer s) = 512 \<and>
        unat (bodyIdx s) < unat (bodyLen s) \<and> unat (bodyLen s) \<le> 512 \<and>
        (\<exists>s'. poll_byte sum8 s (5, 9) = Inr s' \<and> buffer s' = (buffer s)[unat (bodyIdx s) := 9])"
    using r st b i w by auto
  have 2: "1 \<le> unat (bodyLen sb) \<and> unat (bodyLen sb) \<le> 512 \<and> bodyIdx sb = 0"
    using th sb stb by simp
  show ?thesis using 1 2 sb stb by blast
qed

end
